theory Spec2Isabelle
  imports Main
begin

section \<open>Characters and character classes\<close>

text \<open>
  A Python string is modelled as a \<^typ>\<open>string\<close>, a list of characters with code points
  0 to 255.  The three predicates below are the tables that Python's \<^verbatim>\<open>re\<close> module uses
  for \<^verbatim>\<open>\s\<close>, \<^verbatim>\<open>\d\<close> and \<^verbatim>\<open>\w\<close> on \<^verbatim>\<open>str\<close> patterns, restricted to that
  range.  All theorems are about pages and lines over these characters.

  Beyond code point 255 the classes of Python have further members; in particular
  \<^verbatim>\<open>\d\<close> matches every Unicode decimal digit, and \<^verbatim>\<open>int\<close> reads each of them with its
  decimal value.  Two level texts can therefore denote the same integer without being the
  same text, by leading zeros (inside the range modelled) or by digits of another script
  (outside it).  For this reason the theorems about levels speak of the integer that a
  level text denotes, never of the identity of the text.
\<close>

definition code :: "char \<Rightarrow> nat" where
  "code c = of_char c"

definition is_space :: "char \<Rightarrow> bool" where
  "is_space c = (code c \<in> {9, 10, 11, 12, 13, 28, 29, 30, 31, 32, 133, 160})"

definition is_digit :: "char \<Rightarrow> bool" where
  "is_digit c = (48 \<le> code c \<and> code c \<le> 57)"

definition is_alnum :: "char \<Rightarrow> bool" where
  "is_alnum c = (is_digit c
     \<or> (65 \<le> code c \<and> code c \<le> 90) \<or> (97 \<le> code c \<and> code c \<le> 122)
     \<or> code c \<in> {170, 178, 179, 181, 185, 186, 188, 189, 190}
     \<or> (192 \<le> code c \<and> code c \<le> 214) \<or> (216 \<le> code c \<and> code c \<le> 246)
     \<or> 248 \<le> code c)"

definition is_word :: "char \<Rightarrow> bool" where
  "is_word c = (is_alnum c \<or> c = CHR ''_'')"

text \<open>Lower-casing as \<^verbatim>\<open>re.IGNORECASE\<close> applies it to a literal and to the subject.\<close>

definition to_lower :: "char \<Rightarrow> char" where
  "to_lower c = (if (65 \<le> code c \<and> code c \<le> 90)
                    \<or> (192 \<le> code c \<and> code c \<le> 222 \<and> code c \<noteq> 215)
                 then char_of (code c + 32) else c)"

text \<open>\<^verbatim>\<open>string.punctuation\<close> of the Python standard library.\<close>

definition punctuation :: string where
  "punctuation = [CHR ''!'', CHR 0x22, CHR ''#'', CHR ''$'', CHR ''%'', CHR ''&'', CHR 0x27,
     CHR ''('', CHR '')'', CHR ''*'', CHR ''+'', CHR '','', CHR ''-'', CHR ''.'', CHR ''/'',
     CHR '':'', CHR '';'', CHR ''<'', CHR ''='', CHR ''>'', CHR ''?'', CHR ''@'', CHR ''['',
     CHR 0x5C, CHR '']'', CHR ''^'', CHR ''_'', CHR 0x60, CHR ''{'', CHR ''|'', CHR ''}'',
     CHR ''~'']"

text \<open>
  The sets of characters a one-character pattern element can stand for: the class
  escapes, a literal, a literal under \<^verbatim>\<open>IGNORECASE\<close>, an enumeration, and the union
  that a bracket expression forms.
\<close>

datatype cset = Space | NonSpace | Digit | WordChar | Lit char | LitI char
  | OneOf string | Alt cset cset

fun in_cset :: "cset \<Rightarrow> char \<Rightarrow> bool" where
  "in_cset Space c = is_space c"
| "in_cset NonSpace c = (\<not> is_space c)"
| "in_cset Digit c = is_digit c"
| "in_cset WordChar c = is_word c"
| "in_cset (Lit a) c = (c = a)"
| "in_cset (LitI a) c = (to_lower c = to_lower a)"
| "in_cset (OneOf s) c = (c \<in> set s)"
| "in_cset (Alt a b) c = (in_cset a c \<or> in_cset b c)"

section \<open>Regular expressions with backtracking\<close>

text \<open>
  The pattern elements that occur in \<^verbatim>\<open>navigation_table.py\<close>: one character of a
  set, the greedy repetitions \<^verbatim>\<open>*\<close> and \<^verbatim>\<open>+\<close> and the lazy repetition \<^verbatim>\<open>+?\<close> of a
  set, the greedy option \<^verbatim>\<open>?\<close>, concatenation and a capture group.
\<close>

datatype regex = Eps | Chr cset | Star cset | Plus cset | LazyPlus cset
  | Opt regex | Seq regex regex | Group regex

text \<open>The remainders that a repetition can leave, in the order in which the matcher tries them.\<close>

fun greedy :: "cset \<Rightarrow> string \<Rightarrow> string list" where
  "greedy c [] = [[]]"
| "greedy c (x # xs) = (if in_cset c x then greedy c xs @ [x # xs] else [x # xs])"

fun lazy :: "cset \<Rightarrow> string \<Rightarrow> string list" where
  "lazy c [] = [[]]"
| "lazy c (x # xs) = (x # xs) # (if in_cset c x then lazy c xs else [])"

definition consumed :: "string \<Rightarrow> string \<Rightarrow> string" where
  "consumed s t = take (length s - length t) s"

text \<open>
  \<open>run r s\<close> lists every way in which \<open>r\<close> matches a prefix of \<open>s\<close>, as the captured
  groups and the unmatched remainder, in the order in which a backtracking matcher finds
  them.  The groups of the patterns here are not nested, so the order in which they close
  is their numbering.
\<close>

fun run :: "regex \<Rightarrow> string \<Rightarrow> (string list \<times> string) list" where
  "run Eps s = [([], s)]"
| "run (Chr c) s = (case s of [] \<Rightarrow> [] | x # xs \<Rightarrow> if in_cset c x then [([], xs)] else [])"
| "run (Star c) s = map (Pair []) (greedy c s)"
| "run (Plus c) s =
     (case s of [] \<Rightarrow> [] | x # xs \<Rightarrow> if in_cset c x then map (Pair []) (greedy c xs) else [])"
| "run (LazyPlus c) s =
     (case s of [] \<Rightarrow> [] | x # xs \<Rightarrow> if in_cset c x then map (Pair []) (lazy c xs) else [])"
| "run (Opt r) s = run r s @ [([], s)]"
| "run (Seq a b) s =
     concat (map (\<lambda>(g, t). map (\<lambda>(h, u). (g @ h, u)) (run b t)) (run a s))"
| "run (Group r) s = map (\<lambda>(g, t). (g @ [consumed s t], t)) (run r s)"

text \<open>
  \<^verbatim>\<open>Pattern.match\<close>: the first match at the start of the subject, as the list of its
  groups with group 0, the matched text, in front; \<open>None\<close> when there is none.
\<close>

definition re_match :: "regex \<Rightarrow> string \<Rightarrow> string list option" where
  "re_match r s = (case run r s of [] \<Rightarrow> None | (g, t) # _ \<Rightarrow> Some (consumed s t # g))"

text \<open>Compilation with \<^verbatim>\<open>re.IGNORECASE\<close>: every literal matches in either case.\<close>

fun ignorecase_cset :: "cset \<Rightarrow> cset" where
  "ignorecase_cset (Lit a) = LitI a"
| "ignorecase_cset (Alt a b) = Alt (ignorecase_cset a) (ignorecase_cset b)"
| "ignorecase_cset c = c"

fun ignorecase :: "regex \<Rightarrow> regex" where
  "ignorecase Eps = Eps"
| "ignorecase (Chr c) = Chr (ignorecase_cset c)"
| "ignorecase (Star c) = Star (ignorecase_cset c)"
| "ignorecase (Plus c) = Plus (ignorecase_cset c)"
| "ignorecase (LazyPlus c) = LazyPlus (ignorecase_cset c)"
| "ignorecase (Opt r) = Opt (ignorecase r)"
| "ignorecase (Seq a b) = Seq (ignorecase a) (ignorecase b)"
| "ignorecase (Group r) = Group (ignorecase r)"

text \<open>
  A pattern source is kept as the list of its elements, so that the concatenation and the
  repetition of f-strings are \<open>@\<close> and \<open>replicate\<close>; \<open>compile\<close> makes the pattern.
\<close>

fun compile :: "regex list \<Rightarrow> regex" where
  "compile [] = Eps"
| "compile (r # rs) = Seq r (compile rs)"

definition lit :: "string \<Rightarrow> regex list" where
  "lit s = map (\<lambda>c. Chr (Lit c)) s"

section \<open>The patterns of the module\<close>

definition WHITESPACE :: "regex list" where
  "WHITESPACE = [Star Space]"

definition TABLE_HEADER_REGEX :: "regex list" where
  "TABLE_HEADER_REGEX =
     WHITESPACE @ lit ''|''
     @ WHITESPACE @ lit ''level'' @ WHITESPACE @ lit ''|''
     @ WHITESPACE @ lit ''path'' @ WHITESPACE @ lit ''|''
     @ WHITESPACE @ lit ''navlink'' @ WHITESPACE @ lit ''|'' @ WHITESPACE"

definition TABLE_HEADER_PATTERN :: regex where
  "TABLE_HEADER_PATTERN = ignorecase (compile TABLE_HEADER_REGEX)"

text \<open>The class \<^verbatim>\<open>[\s\S]\<close>, which every character belongs to.\<close>

definition ANY :: cset where
  "ANY = Alt Space NonSpace"

definition TABLE_PATTERN :: regex where
  "TABLE_PATTERN = ignorecase (compile
     ([Star ANY] @ TABLE_HEADER_REGEX @ [Star ANY] @ [Opt (Chr (Lit CHR ''|''))]))"

definition FILLER_ROW_REGEX_COLUMN :: "regex list" where
  "FILLER_ROW_REGEX_COLUMN = WHITESPACE @ [Plus (Lit CHR ''-'')] @ WHITESPACE @ lit ''|''"

definition FILLER_ROW_PATTERN :: regex where
  "FILLER_ROW_PATTERN = compile
     (WHITESPACE @ lit ''|'' @ concat (replicate 3 FILLER_ROW_REGEX_COLUMN) @ WHITESPACE)"

definition LEVEL_REGEX :: "regex list" where
  "LEVEL_REGEX = WHITESPACE @ [Group (Plus Digit)] @ WHITESPACE"

definition PATH_REGEX :: "regex list" where
  "PATH_REGEX = WHITESPACE @ [Group (Plus (Alt WordChar (Lit CHR ''-'')))] @ WHITESPACE"

text \<open>
  The title class is written \<^verbatim>\<open>[\w\- {string.punctuation}]\<close>.  Inside the brackets the
  backslash of \<^verbatim>\<open>string.punctuation\<close> escapes the \<^verbatim>\<open>]\<close> that follows it, so the class
  holds every punctuation character but the backslash itself.
\<close>

definition NAVLINK_TITLE_CLASS :: cset where
  "NAVLINK_TITLE_CLASS =
     Alt WordChar (Alt (Lit CHR ''-'') (Alt (Lit CHR '' '')
       (OneOf (filter (\<lambda>c. c \<noteq> CHR 0x5C) punctuation))))"

definition NAVLINK_TITLE_REGEX :: regex where
  "NAVLINK_TITLE_REGEX = LazyPlus NAVLINK_TITLE_CLASS"

definition NAVLINK_LINK_REGEX :: regex where
  "NAVLINK_LINK_REGEX = Star (Alt WordChar (Alt (Lit CHR ''/'') (Lit CHR ''-'')))"

definition NAVLINK_REGEX :: "regex list" where
  "NAVLINK_REGEX =
     WHITESPACE @ lit ''['' @ WHITESPACE @ [Group NAVLINK_TITLE_REGEX] @ WHITESPACE
     @ lit '']'' @ WHITESPACE
     @ lit ''('' @ WHITESPACE @ [Group NAVLINK_LINK_REGEX] @ WHITESPACE @ lit '')''
     @ WHITESPACE"

definition ROW_PATTERN :: regex where
  "ROW_PATTERN = compile
     (WHITESPACE @ lit ''|'' @ LEVEL_REGEX @ lit ''|'' @ PATH_REGEX @ lit ''|''
      @ NAVLINK_REGEX @ lit ''|'')"

section \<open>The data model and the library functions used\<close>

text \<open>
  Modelled from the spec: the value types \<^verbatim>\<open>types_.Navlink\<close> and \<^verbatim>\<open>types_.TableRow\<close>
  and the exception \<^verbatim>\<open>NavigationTableParseError\<close> are declared in modules that are not
  among the sources.  The exception carries its message, the one argument it is raised
  with.  \<^verbatim>\<open>ValueError\<close> is the exception of \<^verbatim>\<open>int\<close>; no statement depends on its
  message, which the model leaves out.
\<close>

record Navlink =
  title :: string
  link :: "string option"

record TableRow =
  level :: int
  path :: string
  navlink :: Navlink

datatype error = NavigationTableParseError string | ValueError

text \<open>
  \<^verbatim>\<open>int\<close> on the text of a group.  A non-empty run of decimal digits gives its value in
  base ten, unless the run is longer than the limit on the digits of a converted integer,
  \<^verbatim>\<open>sys.int_info.default_max_str_digits\<close> = 4300 when the interpreter is not configured
  otherwise: then \<^verbatim>\<open>int\<close> raises \<^verbatim>\<open>ValueError\<close>.  Every digit counts towards the
  limit, leading zeros included.  Anything other than a run of digits is reported as
  \<^verbatim>\<open>ValueError\<close> too (Python accepts a sign, underscores and surrounding blanks as
  well; the parser never passes them).
\<close>

definition digit_value :: "char \<Rightarrow> int" where
  "digit_value c = int (code c) - 48"

definition int_of_digits :: "string \<Rightarrow> int" where
  "int_of_digits s = foldl (\<lambda>n c. 10 * n + digit_value c) 0 s"

definition max_str_digits :: nat where
  "max_str_digits = 4300"

definition py_int :: "string \<Rightarrow> error + int" where
  "py_int s = (if s = [] \<or> \<not> list_all is_digit s then Inl ValueError
               else if max_str_digits < length s then Inl ValueError
               else Inr (int_of_digits s))"

text \<open>
  \<^verbatim>\<open>repr\<close> of a string, which the conversion \<^verbatim>\<open>!r\<close> of a formatted string literal
  applies.  The text is put between single quotes, or between double quotes when it holds a
  single quote and no double quote.  The quote in use and the backslash are escaped with a
  backslash; tab, line feed and carriage return are written \<^verbatim>\<open>\t\<close>, \<^verbatim>\<open>\n\<close> and
  \<^verbatim>\<open>\r\<close>; every other character that is not printable is written \<^verbatim>\<open>\x\<close> and its two
  hexadecimal digits; a printable character stands for itself.  In the range 0 to 255 the
  printable characters are 32 to 126 and 161 to 255 without the soft hyphen 173.
\<close>

definition is_printable :: "char \<Rightarrow> bool" where
  "is_printable c = ((32 \<le> code c \<and> code c \<le> 126) \<or> (161 \<le> code c \<and> code c \<noteq> 173))"

definition hex_digit :: "nat \<Rightarrow> char" where
  "hex_digit n = ''0123456789abcdef'' ! n"

definition repr_char :: "char \<Rightarrow> char \<Rightarrow> string" where
  "repr_char quote c =
     (if c = quote \<or> c = CHR 0x5C then [CHR 0x5C, c]
      else if c = CHR 0x09 then [CHR 0x5C, CHR ''t'']
      else if c = CHR 0x0A then [CHR 0x5C, CHR ''n'']
      else if c = CHR 0x0D then [CHR 0x5C, CHR ''r'']
      else if is_printable c then [c]
      else [CHR 0x5C, CHR ''x'', hex_digit (code c div 16), hex_digit (code c mod 16)])"

definition py_repr :: "string \<Rightarrow> string" where
  "py_repr s =
     (let quote = (if CHR 0x27 \<in> set s \<and> CHR 0x22 \<notin> set s then CHR 0x22 else CHR 0x27)
      in [quote] @ concat (map (repr_char quote) s) @ [quote])"

text \<open>
  \<^verbatim>\<open>str.splitlines\<close>: the lines of a text without their terminators.  A carriage return
  followed by a line feed is one terminator, and a terminator at the very end of the text
  does not open another line.
\<close>

definition is_linebreak :: "char \<Rightarrow> bool" where
  "is_linebreak c = (code c \<in> {10, 11, 12, 13, 28, 29, 30, 133})"

fun splitlines_from :: "string \<Rightarrow> string \<Rightarrow> string list" where
  "splitlines_from cur [] = (if cur = [] then [] else [cur])"
| "splitlines_from cur [c] =
     (if is_linebreak c then [cur] else [cur @ [c]])"
| "splitlines_from cur (c # d # cs) =
     (if c = CHR 0x0D \<and> d = CHR 0x0A then cur # splitlines_from [] cs
      else if is_linebreak c then cur # splitlines_from [] (d # cs)
      else splitlines_from (cur @ [c]) (d # cs))"

definition splitlines :: "string \<Rightarrow> string list" where
  "splitlines s = splitlines_from [] s"

section \<open>The functions of the module\<close>

definition filter_line :: "string \<Rightarrow> bool" where
  "filter_line line =
     (if re_match TABLE_HEADER_PATTERN line \<noteq> None then True
      else if re_match FILLER_ROW_PATTERN line \<noteq> None then True
      else if re_match ROW_PATTERN line \<noteq> None then False
      else True)"

definition line_to_row :: "string \<Rightarrow> error + TableRow" where
  "line_to_row line =
     (case re_match ROW_PATTERN line of
        None \<Rightarrow> Inl (NavigationTableParseError (''Invalid table row, line='' @ py_repr line))
      | Some m \<Rightarrow>
          (case py_int (m ! 1) of
             Inl e \<Rightarrow> Inl e
           | Inr lvl \<Rightarrow>
              (let path = m ! 2;
                   navlink_title = m ! 3;
                   navlink_link = m ! 4
               in Inr \<lparr>level = lvl, path = path,
                       navlink = \<lparr>title = navlink_title,
                                   link = (if navlink_link = [] then None
                                           else Some navlink_link)\<rparr>\<rparr>)))"

text \<open>
  \<open>from_page\<close> returns a generator.  It is modelled as the list of the outcomes of its
  successive steps, one for each line that passes the filter; \<open>consume\<close> is what a caller
  gets who runs the generator to its end: the rows, or the first exception.
\<close>

definition from_page :: "string \<Rightarrow> (error + TableRow) list" where
  "from_page page =
     (case re_match TABLE_PATTERN page of
        None \<Rightarrow> []
      | Some m \<Rightarrow>
          (let table = m ! 0
           in map line_to_row (filter (\<lambda>line. \<not> filter_line line) (splitlines table))))"

fun consume :: "(error + 'a) list \<Rightarrow> error + 'a list" where
  "consume [] = Inr []"
| "consume (Inl e # rs) = Inl e"
| "consume (Inr x # rs) = (case consume rs of Inl e \<Rightarrow> Inl e | Inr xs \<Rightarrow> Inr (x # xs))"

text \<open>\<^verbatim>\<open>"\n".join\<close>, which builds the pages of the examples.\<close>

fun join_lines :: "string list \<Rightarrow> string" where
  "join_lines [] = []"
| "join_lines [l] = l"
| "join_lines (l # m # ls) = l @ CHR 0x0A # join_lines (m # ls)"

definition example_page :: string where
  "example_page = join_lines
     [''Some intro text.'', '''', ''| Level | Path | Navlink |'', ''| -- | -- | -- |'',
      ''| 1 | group-1 | [Group 1]() |'', ''| 2 | page-1 | [Page 1](group-1/page-1) |'']"


text \<open>Lines and pages with a level of 4301 digits, one more than \<open>max_str_digits\<close>.\<close>

definition long_level :: string where
  "long_level = replicate 4301 CHR ''1''"

definition long_level_row :: string where
  "long_level_row = ''| '' @ long_level @ '' | a | [T]() |''"


section \<open>What a pattern describes\<close>

text \<open>
  The grammar of a pattern, independent of any matching strategy: \<open>sem r\<close> holds the
  texts that \<open>r\<close> describes, each with the texts of its groups.
\<close>

fun sem :: "regex \<Rightarrow> (string \<times> string list) set" where
  "sem Eps = {([], [])}"
| "sem (Chr c) = {([x], []) | x. in_cset c x}"
| "sem (Star c) = {(w, []) | w. list_all (in_cset c) w}"
| "sem (Plus c) = {(w, []) | w. w \<noteq> [] \<and> list_all (in_cset c) w}"
| "sem (LazyPlus c) = {(w, []) | w. w \<noteq> [] \<and> list_all (in_cset c) w}"
| "sem (Opt r) = insert ([], []) (sem r)"
| "sem (Seq a b) = {(u @ v, g @ h) | u v g h. (u, g) \<in> sem a \<and> (v, h) \<in> sem b}"
| "sem (Group r) = {(w, g @ [w]) | w g. (w, g) \<in> sem r}"

text \<open>A text begins with, or contains, a piece that the pattern describes.\<close>

definition starts_with :: "regex \<Rightarrow> string \<Rightarrow> bool" where
  "starts_with r s = (\<exists>w t g. s = w @ t \<and> (w, g) \<in> sem r)"

definition contains :: "regex \<Rightarrow> string \<Rightarrow> bool" where
  "contains r s = (\<exists>pre mid suf g. s = pre @ mid @ suf \<and> (mid, g) \<in> sem r)"

text \<open>The executable counterpart of \<open>contains\<close>: the pattern matches at some position.\<close>

definition occurs :: "regex \<Rightarrow> string \<Rightarrow> bool" where
  "occurs r s = list_ex (\<lambda>i. re_match r (drop i s) \<noteq> None) [0..<Suc (length s)]"

text \<open>The row that \<open>line_to_row\<close> builds from the groups of a match.\<close>

definition row_of :: "string list \<Rightarrow> TableRow" where
  "row_of m = \<lparr>level = int_of_digits (m ! 1), path = m ! 2,
     navlink = \<lparr>title = m ! 3, link = (if m ! 4 = [] then None else Some (m ! 4))\<rparr>\<rparr>"

text \<open>Auxiliary notions for the proofs about the matcher.\<close>

definition rejects :: "cset \<Rightarrow> regex \<Rightarrow> bool" where
  "rejects c r = (\<forall>x t. in_cset c x \<longrightarrow> run r (x # t) = [])"

definition to_end :: "regex \<Rightarrow> bool" where
  "to_end r = (\<forall>s. run r s = [] \<or> snd (hd (run r s)) = [])"

definition second_char :: "string \<Rightarrow> char option" where
  "second_char s = (case dropWhile is_space s of [] \<Rightarrow> None
     | x # xs \<Rightarrow> (case dropWhile is_space xs of [] \<Rightarrow> None | y # ys \<Rightarrow> Some y))"

section \<open>The row pattern as a scanner\<close>

text \<open>
  The search that the matcher performs for the row pattern, written out as functions on
  the line.  Everything before the title and everything after it is decided by skipping
  blanks and reading runs of characters; only the two ends of the title are searched for.
  The theorems below show that these functions give the first match of \<open>ROW_PATTERN\<close>.
\<close>

abbreviation PATH_CLASS :: cset where
  "PATH_CLASS \<equiv> Alt WordChar (Lit CHR ''-'')"

abbreviation LINK_CLASS :: cset where
  "LINK_CLASS \<equiv> Alt WordChar (Alt (Lit CHR ''/'') (Lit CHR ''-''))"

definition ROW_TAIL :: regex where
  "ROW_TAIL = compile
     (WHITESPACE @ lit '']'' @ WHITESPACE
      @ lit ''('' @ WHITESPACE @ [Group NAVLINK_LINK_REGEX] @ WHITESPACE @ lit '')''
      @ WHITESPACE @ lit ''|'')"

definition TITLE_ON :: regex where
  "TITLE_ON = Seq (Group NAVLINK_TITLE_REGEX) ROW_TAIL"

definition first :: "'a list \<Rightarrow> 'a option" where
  "first xs = (case xs of [] \<Rightarrow> None | x # _ \<Rightarrow> Some x)"

definition skip_blanks :: "string \<Rightarrow> string" where
  "skip_blanks s = dropWhile is_space s"

definition expect :: "char \<Rightarrow> string \<Rightarrow> string option" where
  "expect c s = (case s of [] \<Rightarrow> None | x # xs \<Rightarrow> if x = c then Some xs else None)"

definition tail_after :: "string \<Rightarrow> (string \<times> string) option" where
  "tail_after s =
     (case expect CHR ''('' (skip_blanks s) of None \<Rightarrow> None | Some s1 \<Rightarrow>
        (let s2 = skip_blanks s1 in
           (case expect CHR '')'' (skip_blanks (dropWhile (in_cset LINK_CLASS) s2)) of
              None \<Rightarrow> None
            | Some s3 \<Rightarrow>
               (case expect CHR ''|'' (skip_blanks s3) of None \<Rightarrow> None
                | Some s4 \<Rightarrow> Some (takeWhile (in_cset LINK_CLASS) s2, s4)))))"

definition row_tail :: "string \<Rightarrow> (string \<times> string) option" where
  "row_tail s =
     (case expect CHR '']'' (skip_blanks s) of None \<Rightarrow> None | Some s1 \<Rightarrow> tail_after s1)"

fun title_from :: "string \<Rightarrow> string \<Rightarrow> (string list \<times> string) option" where
  "title_from acc z =
     (case row_tail z of
        Some (lk, u) \<Rightarrow> Some ([acc, lk], u)
      | None \<Rightarrow>
         (case z of [] \<Rightarrow> None
          | y # z' \<Rightarrow> if in_cset NAVLINK_TITLE_CLASS y then title_from (acc @ [y]) z' else None))"

definition title_at :: "string \<Rightarrow> (string list \<times> string) option" where
  "title_at s = (case s of [] \<Rightarrow> None
     | x # xs \<Rightarrow> if in_cset NAVLINK_TITLE_CLASS x then title_from [x] xs else None)"

fun blanks_title :: "string \<Rightarrow> (string list \<times> string) option" where
  "blanks_title [] = None"
| "blanks_title (x # xs) =
     (if is_space x
      then (case blanks_title xs of Some r \<Rightarrow> Some r | None \<Rightarrow> title_at (x # xs))
      else title_at (x # xs))"

definition row_head :: "string \<Rightarrow> (string \<times> string \<times> string) option" where
  "row_head s =
     (case expect CHR ''|'' (skip_blanks s) of None \<Rightarrow> None | Some s1 \<Rightarrow>
        (let s2 = skip_blanks s1; d = takeWhile is_digit s2 in
         if d = [] then None else
           (case expect CHR ''|'' (skip_blanks (dropWhile is_digit s2)) of None \<Rightarrow> None
            | Some s3 \<Rightarrow>
               (let s4 = skip_blanks s3; p = takeWhile (in_cset PATH_CLASS) s4 in
                if p = [] then None else
                  (case expect CHR ''|'' (skip_blanks (dropWhile (in_cset PATH_CLASS) s4)) of
                     None \<Rightarrow> None
                   | Some s5 \<Rightarrow>
                      (case expect CHR ''['' (skip_blanks s5) of None \<Rightarrow> None
                       | Some s6 \<Rightarrow> Some (d, p, s6)))))))"

definition row_first :: "string \<Rightarrow> (string list \<times> string) option" where
  "row_first s = (case row_head s of None \<Rightarrow> None
     | Some (d, p, s6) \<Rightarrow> map_option (\<lambda>(h, u). (d # p # h, u)) (blanks_title s6))"

definition tail_text :: "string \<Rightarrow> string \<Rightarrow> string \<Rightarrow> string \<Rightarrow> string \<Rightarrow> string" where
  "tail_text v1 v2 lk v3 v4 = v1 @ CHR ''('' # v2 @ lk @ v3 @ CHR '')'' # v4 @ [CHR ''|'']"

definition head_text ::
  "string \<Rightarrow> string \<Rightarrow> string \<Rightarrow> string \<Rightarrow> string \<Rightarrow> string \<Rightarrow> string \<Rightarrow> string \<Rightarrow> string" where
  "head_text w0 w1 d w2 w3 p w4 w5 =
     w0 @ CHR ''|'' # w1 @ d @ w2 @ CHR ''|'' # w3 @ p @ w4 @ CHR ''|'' # w5 @ [CHR ''['']"

text \<open>
  The text of a row with the cells \<open>d\<close>, \<open>p\<close>, \<open>ti\<close> and \<open>lk\<close>, and the twelve runs of
  blanks \<open>ws\<close> that stand around the pipes, the brackets and the parentheses, in their
  order in the line.
\<close>

definition row_text :: "string list \<Rightarrow> string \<Rightarrow> string \<Rightarrow> string \<Rightarrow> string \<Rightarrow> string" where
  "row_text ws d p ti lk =
     head_text (ws ! 0) (ws ! 1) d (ws ! 2) (ws ! 3) p (ws ! 4) (ws ! 5)
     @ ws ! 6 @ ti @ ws ! 7 @ CHR '']'' # tail_text (ws ! 8) (ws ! 9) lk (ws ! 10) (ws ! 11)"

text \<open>\<open>spaced u v\<close>: the text \<open>v\<close> is \<open>u\<close> with space characters inserted.\<close>

fun spaced :: "string \<Rightarrow> string \<Rightarrow> bool" where
  "spaced [] v = list_all (\<lambda>c. c = CHR '' '') v"
| "spaced (x # u) [] = False"
| "spaced (x # u) (y # v) = ((y = x \<and> spaced u v) \<or> (y = CHR '' '' \<and> spaced (x # u) v))"

section \<open>The matcher and the grammar\<close>


lemma greedy_set: "t \<in> set (greedy c s) \<longleftrightarrow> (\<exists>w. s = w @ t \<and> list_all (in_cset c) w)"
proof (induction s)
  case Nil
  then show ?case by auto
next
  case (Cons x xs)
  show ?case
  proof (cases "in_cset c x")
    case True
    have "t \<in> set (greedy c (x # xs)) \<longleftrightarrow> t = x # xs \<or> (\<exists>w. xs = w @ t \<and> list_all (in_cset c) w)"
      using True Cons.IH by auto
    also have "\<dots> \<longleftrightarrow> (\<exists>w. x # xs = w @ t \<and> list_all (in_cset c) w)"
      using True by (auto simp: Cons_eq_append_conv)
    finally show ?thesis .
  next
    case False
    then show ?thesis by (auto simp: Cons_eq_append_conv)
  qed
qed

lemma lazy_set: "t \<in> set (lazy c s) \<longleftrightarrow> (\<exists>w. s = w @ t \<and> list_all (in_cset c) w)"
proof (induction s)
  case Nil
  then show ?case by auto
next
  case (Cons x xs)
  show ?case
  proof (cases "in_cset c x")
    case True
    have "t \<in> set (lazy c (x # xs)) \<longleftrightarrow> t = x # xs \<or> (\<exists>w. xs = w @ t \<and> list_all (in_cset c) w)"
      using True Cons.IH by auto
    also have "\<dots> \<longleftrightarrow> (\<exists>w. x # xs = w @ t \<and> list_all (in_cset c) w)"
      using True by (auto simp: Cons_eq_append_conv)
    finally show ?thesis .
  next
    case False
    then show ?thesis by (auto simp: Cons_eq_append_conv)
  qed
qed

lemma consumed_append [simp]: "consumed (w @ t) t = w"
  by (simp add: consumed_def)

lemma run_sem: "(g, t) \<in> set (run r s) \<longleftrightarrow> (\<exists>w. s = w @ t \<and> (w, g) \<in> sem r)"
proof (induction r arbitrary: g t s)
  case Eps
  then show ?case by auto
next
  case (Chr c)
  then show ?case by (cases s) auto
next
  case (Star c)
  then show ?case by (auto simp: greedy_set)
next
  case (Plus c)
  then show ?case by (cases s) (auto simp: greedy_set Cons_eq_append_conv)
next
  case (LazyPlus c)
  then show ?case by (cases s) (auto simp: lazy_set Cons_eq_append_conv)
next
  case (Opt r)
  then show ?case by auto
next
  case (Seq a b)
  have "(g, t) \<in> set (run (Seq a b) s) \<longleftrightarrow>
        (\<exists>g1 t1 g2. (g1, t1) \<in> set (run a s) \<and> (g2, t) \<in> set (run b t1) \<and> g = g1 @ g2)"
    by (auto simp: image_iff) force
  also have "\<dots> \<longleftrightarrow> (\<exists>g1 t1 g2 w1 w2. s = w1 @ t1 \<and> (w1, g1) \<in> sem a \<and> t1 = w2 @ t
        \<and> (w2, g2) \<in> sem b \<and> g = g1 @ g2)"
    unfolding Seq.IH by blast
  also have "\<dots> \<longleftrightarrow> (\<exists>w. s = w @ t \<and> (w, g) \<in> sem (Seq a b))"
    by (simp, metis append.assoc)
  finally show ?case .
next
  case (Group r)
  have "(g, t) \<in> set (run (Group r) s) \<longleftrightarrow>
        (\<exists>g1. (g1, t) \<in> set (run r s) \<and> g = g1 @ [consumed s t])"
    by force
  also have "\<dots> \<longleftrightarrow> (\<exists>g1 w. s = w @ t \<and> (w, g1) \<in> sem r \<and> g = g1 @ [w])"
    unfolding Group.IH by auto
  also have "\<dots> \<longleftrightarrow> (\<exists>w. s = w @ t \<and> (w, g) \<in> sem (Group r))"
    by auto
  finally show ?case .
qed


lemmas pattern_defs = ROW_PATTERN_def NAVLINK_REGEX_def NAVLINK_LINK_REGEX_def
  NAVLINK_TITLE_REGEX_def PATH_REGEX_def LEVEL_REGEX_def WHITESPACE_def lit_def

lemma sem_ROW_groups:
  assumes "(w, g) \<in> sem ROW_PATTERN"
  shows "\<exists>d p ti l. g = [d, p, ti, l] \<and> d \<noteq> [] \<and> list_all is_digit d
     \<and> p \<noteq> [] \<and> list_all (in_cset (Alt WordChar (Lit CHR ''-''))) p
     \<and> ti \<noteq> [] \<and> list_all (in_cset NAVLINK_TITLE_CLASS) ti
     \<and> list_all (in_cset (Alt WordChar (Alt (Lit CHR ''/'') (Lit CHR ''-'')))) l"
  using assms unfolding pattern_defs
  by (auto simp: list_all_iff)

section \<open>Deterministic pattern elements\<close>


lemma concat_map_all_Nil: "(\<And>x. x \<in> set xs \<Longrightarrow> f x = []) \<Longrightarrow> concat (map f xs) = []"
  by (induction xs) auto

lemma greedy_decomp:
  "\<exists>ts. greedy c s = dropWhile (in_cset c) s # ts
        \<and> (\<forall>t\<in>set ts. \<exists>x t'. t = x # t' \<and> in_cset c x)"
  by (induction s) auto

lemma consumed_dropWhile: "consumed s (dropWhile P s) = takeWhile P s"
proof -
  have "consumed (takeWhile P s @ dropWhile P s) (dropWhile P s) = takeWhile P s"
    by (rule consumed_append)
  then show ?thesis by simp
qed

lemma consumed_Cons_dropWhile:
  "P x \<Longrightarrow> consumed (x # xs) (dropWhile P xs) = takeWhile P (x # xs)"
  using consumed_dropWhile [of "x # xs" P] by simp

lemma run_Seq_Star: "run (Seq (Star c) r) s = concat (map (run r) (greedy c s))"
  by (simp add: comp_def case_prod_beta)

lemma run_Seq_Star_skip:
  assumes "rejects c r"
  shows "run (Seq (Star c) r) s = run r (dropWhile (in_cset c) s)"
proof -
  obtain ts where ts: "greedy c s = dropWhile (in_cset c) s # ts"
    "\<forall>t\<in>set ts. \<exists>x t'. t = x # t' \<and> in_cset c x"
    using greedy_decomp by blast
  have "concat (map (run r) ts) = []"
    using ts(2) assms by (intro concat_map_all_Nil) (auto simp: rejects_def)
  then show ?thesis by (simp add: run_Seq_Star ts(1))
qed

lemma run_Seq_Chr:
  "run (Seq (Chr c) r) s = (case s of [] \<Rightarrow> [] | x # xs \<Rightarrow> if in_cset c x then run r xs else [])"
  by (cases s) auto

lemma run_Seq_Plus_skip:
  assumes "rejects c r"
  shows "run (Seq (Plus c) r) s =
     (if takeWhile (in_cset c) s = [] then [] else run r (dropWhile (in_cset c) s))"
proof (cases s)
  case Nil
  then show ?thesis by simp
next
  case (Cons x xs)
  show ?thesis
  proof (cases "in_cset c x")
    case True
    obtain ts where ts: "greedy c xs = dropWhile (in_cset c) xs # ts"
      "\<forall>t\<in>set ts. \<exists>x t'. t = x # t' \<and> in_cset c x"
      using greedy_decomp by blast
    have "concat (map (run r) ts) = []"
      using ts(2) assms by (intro concat_map_all_Nil) (auto simp: rejects_def)
    then show ?thesis using True Cons by (simp add: ts(1) comp_def case_prod_beta)
  next
    case False
    then show ?thesis using Cons by simp
  qed
qed

lemma run_Seq_Group_Plus_skip:
  assumes "rejects c r"
  shows "run (Seq (Group (Plus c)) r) s =
     (if takeWhile (in_cset c) s = [] then []
      else map (\<lambda>(h, u). (takeWhile (in_cset c) s # h, u)) (run r (dropWhile (in_cset c) s)))"
proof (cases s)
  case Nil
  then show ?thesis by simp
next
  case (Cons x xs)
  show ?thesis
  proof (cases "in_cset c x")
    case True
    obtain ts where ts: "greedy c xs = dropWhile (in_cset c) xs # ts"
      "\<forall>t\<in>set ts. \<exists>x t'. t = x # t' \<and> in_cset c x"
      using greedy_decomp by blast
    have "concat (map (\<lambda>t. map (\<lambda>(h, u). (consumed (x # xs) t # h, u)) (run r t)) ts) = []"
      using ts(2) assms by (intro concat_map_all_Nil) (auto simp: rejects_def)
    then show ?thesis using True Cons
      by (simp add: ts(1) comp_def case_prod_beta consumed_Cons_dropWhile)
  next
    case False
    then show ?thesis using Cons by simp
  qed
qed

lemma run_Seq_Group_Star_skip:
  assumes "rejects c r"
  shows "run (Seq (Group (Star c)) r) s =
     map (\<lambda>(h, u). (takeWhile (in_cset c) s # h, u)) (run r (dropWhile (in_cset c) s))"
proof -
  obtain ts where ts: "greedy c s = dropWhile (in_cset c) s # ts"
    "\<forall>t\<in>set ts. \<exists>x t'. t = x # t' \<and> in_cset c x"
    using greedy_decomp by blast
  have "concat (map (\<lambda>t. map (\<lambda>(h, u). (consumed s t # h, u)) (run r t)) ts) = []"
    using ts(2) assms by (intro concat_map_all_Nil) (auto simp: rejects_def)
  then show ?thesis
    by (simp add: ts(1) comp_def case_prod_beta consumed_dropWhile)
qed

text \<open>When a pattern cannot begin with a character of a class.\<close>

lemma rejects_Chr: "(\<And>x. in_cset c x \<Longrightarrow> \<not> in_cset d x) \<Longrightarrow> rejects c (Seq (Chr d) r)"
  by (simp add: rejects_def)

lemma dropWhile_Cons_not: "\<not> P x \<Longrightarrow> dropWhile P (x # t) = x # t"
  by simp

lemma rejects_Star:
  assumes "\<And>x. in_cset c x \<Longrightarrow> \<not> in_cset d x" "rejects d r" "rejects c r"
  shows "rejects c (Seq (Star d) r)"
  unfolding rejects_def
proof (intro allI impI)
  fix x t assume "in_cset c x"
  then have "\<not> in_cset d x" using assms(1) by blast
  then have "run (Seq (Star d) r) (x # t) = run r (x # t)"
    using run_Seq_Star_skip [OF assms(2), of "x # t"] by simp
  then show "run (Seq (Star d) r) (x # t) = []"
    using assms(3) \<open>in_cset c x\<close> by (simp add: rejects_def)
qed

lemma rejects_Plus: "(\<And>x. in_cset c x \<Longrightarrow> \<not> in_cset d x) \<Longrightarrow> rejects c (Seq (Plus d) r)"
  by (simp add: rejects_def)

lemma rejects_Group_Plus:
  "(\<And>x. in_cset c x \<Longrightarrow> \<not> in_cset d x) \<Longrightarrow> rejects c (Seq (Group (Plus d)) r)"
  by (simp add: rejects_def)

lemma rejects_Group_Star:
  assumes "\<And>x. in_cset c x \<Longrightarrow> \<not> in_cset d x" "rejects d r" "rejects c r"
  shows "rejects c (Seq (Group (Star d)) r)"
  unfolding rejects_def
proof (intro allI impI)
  fix x t assume "in_cset c x"
  then have "\<not> in_cset d x" using assms(1) by blast
  then have "run (Seq (Group (Star d)) r) (x # t) = map (\<lambda>(h, u). ([] # h, u)) (run r (x # t))"
    using run_Seq_Group_Star_skip [OF assms(2), of "x # t"] by simp
  then show "run (Seq (Group (Star d)) r) (x # t) = []"
    using assms(3) \<open>in_cset c x\<close> by (simp add: rejects_def)
qed

section \<open>Character classes\<close>


lemma code_inj: "code a = code b \<Longrightarrow> a = b"
  by (simp add: code_def)

lemma space_not_word: "is_space x \<Longrightarrow> \<not> is_word x"
  by (auto simp: is_space_def is_word_def is_alnum_def is_digit_def code_def)

lemma digit_is_word: "is_digit x \<Longrightarrow> is_word x"
  by (simp add: is_word_def is_alnum_def)

lemma space_not_digit: "is_space x \<Longrightarrow> \<not> is_digit x"
  using space_not_word digit_is_word by blast

lemma space_chars [simp]:
  "\<not> is_space CHR ''|''" "\<not> is_space CHR ''[''" "\<not> is_space CHR '']''"
  "\<not> is_space CHR ''(''" "\<not> is_space CHR '')''" "\<not> is_space CHR ''-''"
  "\<not> is_space CHR ''/''" "is_space CHR '' ''"
  by (simp_all add: is_space_def code_def)

lemma word_chars [simp]:
  "\<not> is_word CHR ''|''" "\<not> is_word CHR ''[''" "\<not> is_word CHR '']''"
  "\<not> is_word CHR ''(''" "\<not> is_word CHR '')''" "\<not> is_word CHR ''-''"
  "\<not> is_word CHR ''/''" "\<not> is_word CHR '' ''"
  by (simp_all add: is_word_def is_alnum_def is_digit_def code_def)

lemma digit_chars [simp]:
  "\<not> is_digit CHR ''|''" "\<not> is_digit CHR ''-''" "\<not> is_digit CHR ''l''" "\<not> is_digit CHR ''L''"
  by (simp_all add: is_digit_def code_def)

lemma to_lower_code:
  "code (to_lower x) = (if (65 \<le> code x \<and> code x \<le> 90)
                    \<or> (192 \<le> code x \<and> code x \<le> 222 \<and> code x \<noteq> 215) then code x + 32 else code x)"
  by (auto simp: to_lower_def code_def take_bit_eq_mod)

lemma lower_l: "to_lower x = to_lower CHR ''l'' \<Longrightarrow> \<not> is_digit x \<and> \<not> is_space x \<and> x \<noteq> CHR ''-''"
proof -
  assume "to_lower x = to_lower CHR ''l''"
  then have "code (to_lower x) = code (to_lower CHR ''l'')" by simp
  then have "code x = 108 \<or> code x = 76"
    unfolding to_lower_code by (auto simp: code_def split: if_splits)
  then show ?thesis by (auto simp: is_digit_def is_space_def code_def)
qed

section \<open>The table pattern\<close>


lemma re_match_None_iff: "re_match r s = None \<longleftrightarrow> run r s = []"
  by (auto simp: re_match_def split: list.splits)

lemma run_nonempty_iff: "run r s \<noteq> [] \<longleftrightarrow> (\<exists>w t g. s = w @ t \<and> (w, g) \<in> sem r)"
proof -
  have "run r s \<noteq> [] \<longleftrightarrow> (\<exists>g t. (g, t) \<in> set (run r s))"
    by (cases "run r s") auto
  then show ?thesis unfolding run_sem by blast
qed

lemma run_extend: "run r s \<noteq> [] \<Longrightarrow> run r (s @ u) \<noteq> []"
  unfolding run_nonempty_iff by (metis append.assoc)

lemma occurs_iff: "occurs r s \<longleftrightarrow> (\<exists>pre suf. s = pre @ suf \<and> run r suf \<noteq> [])"
proof
  assume "occurs r s"
  then obtain i where "run r (drop i s) \<noteq> []"
    unfolding occurs_def list_ex_iff re_match_None_iff by blast
  then show "\<exists>pre suf. s = pre @ suf \<and> run r suf \<noteq> []"
    by (metis append_take_drop_id)
next
  assume "\<exists>pre suf. s = pre @ suf \<and> run r suf \<noteq> []"
  then obtain pre suf where ps: "s = pre @ suf" "run r suf \<noteq> []" by blast
  then have "length pre < Suc (length s)" "run r (drop (length pre) s) \<noteq> []" by auto
  then show "occurs r s"
    unfolding occurs_def list_ex_iff re_match_None_iff
    by (metis atLeastLessThan_iff set_upt zero_le)
qed

text \<open>Case-insensitive compilation of a concatenation, and what a concatenation describes.\<close>

lemma ignorecase_compile: "ignorecase (compile rs) = compile (map ignorecase rs)"
  by (induction rs) auto

lemma sem_compile_append:
  "sem (compile (a @ b)) = {(u @ v, g @ h) | u v g h. (u, g) \<in> sem (compile a) \<and> (v, h) \<in> sem (compile b)}"
proof (induction a)
  case Nil
  then show ?case by auto
next
  case (Cons r a)
  show ?case
    apply (simp add: Cons.IH)
    apply (rule set_eqI)
    apply (simp)
    apply (rule iffI)
     apply (metis append.assoc)
    apply (metis append.assoc)
    done
qed

lemma in_ANY [simp]: "in_cset ANY x"
  by (simp add: ANY_def)

lemma TABLE_PATTERN_eq:
  "TABLE_PATTERN = compile ([Star ANY] @ map ignorecase TABLE_HEADER_REGEX @ [Star ANY, Opt (Chr (LitI CHR ''|''))])"
  by (simp add: TABLE_PATTERN_def ignorecase_compile ANY_def)

lemma TABLE_HEADER_PATTERN_eq:
  "TABLE_HEADER_PATTERN = compile (map ignorecase TABLE_HEADER_REGEX)"
  by (simp add: TABLE_HEADER_PATTERN_def ignorecase_compile)

lemma sem_table_tail: "([], []) \<in> sem (compile [Star ANY, Opt (Chr (LitI CHR ''|''))])"
  by simp

lemma run_TABLE_nonempty: "run TABLE_PATTERN s \<noteq> [] \<longleftrightarrow> occurs TABLE_HEADER_PATTERN s"
proof
  assume "run TABLE_PATTERN s \<noteq> []"
  then obtain w t g where wt: "s = w @ t" "(w, g) \<in> sem TABLE_PATTERN"
    unfolding run_nonempty_iff by blast
  from wt(2) obtain u v g1 where "w = u @ v" "(v, g1) \<in> sem (compile (map ignorecase TABLE_HEADER_REGEX @ [Star ANY, Opt (Chr (LitI CHR ''|''))]))"
    unfolding TABLE_PATTERN_eq by auto
  then obtain v1 v2 g2 where "v = v1 @ v2" "(v1, g2) \<in> sem TABLE_HEADER_PATTERN"
    unfolding sem_compile_append TABLE_HEADER_PATTERN_eq by blast
  then have "s = u @ (v1 @ v2 @ t)" "run TABLE_HEADER_PATTERN (v1 @ v2 @ t) \<noteq> []"
    using wt(1) \<open>w = u @ v\<close> unfolding run_nonempty_iff by auto
  then show "occurs TABLE_HEADER_PATTERN s" unfolding occurs_iff by blast
next
  assume "occurs TABLE_HEADER_PATTERN s"
  then obtain pre suf where ps: "s = pre @ suf" "run TABLE_HEADER_PATTERN suf \<noteq> []"
    unfolding occurs_iff by blast
  then obtain w t g where wt: "suf = w @ t" "(w, g) \<in> sem (compile (map ignorecase TABLE_HEADER_REGEX))"
    unfolding run_nonempty_iff TABLE_HEADER_PATTERN_eq by blast
  have "(w @ [], g @ []) \<in> sem (compile (map ignorecase TABLE_HEADER_REGEX @ [Star ANY, Opt (Chr (LitI CHR ''|''))]))"
    unfolding sem_compile_append using wt(2) sem_table_tail by blast
  moreover have "(pre, []) \<in> sem (Star ANY)" by (simp add: list_all_iff)
  ultimately have "(pre @ w, g) \<in> sem TABLE_PATTERN"
    unfolding TABLE_PATTERN_eq by (simp del: sem.simps(6) map_append) (metis append_Nil)
  then show "run TABLE_PATTERN s \<noteq> []"
    unfolding run_nonempty_iff using ps(1) wt(1) by (metis append.assoc)
qed

text \<open>The first match of the table pattern reaches the end of the page.\<close>

lemma hd_concat_map:
  assumes "\<And>x. x \<in> set xs \<Longrightarrow> f x = [] \<or> P (hd (f x))" "concat (map f xs) \<noteq> []"
  shows "P (hd (concat (map f xs)))"
  using assms
proof (induction xs)
  case Nil
  then show ?case by simp
next
  case (Cons x xs)
  then show ?case by (cases "f x = []") auto
qed

lemma to_end_Seq: assumes "to_end b" shows "to_end (Seq a b)"
  unfolding to_end_def
proof (intro allI)
  fix s
  let ?f = "\<lambda>(g, t). map (\<lambda>(h, u). (g @ h, u)) (run b t)"
  have "\<And>x. x \<in> set (run a s) \<Longrightarrow> ?f x = [] \<or> snd (hd (?f x)) = []"
  proof -
    fix x assume "x \<in> set (run a s)"
    obtain g t where x: "x = (g, t)" by (cases x)
    show "?f x = [] \<or> snd (hd (?f x)) = []"
      using assms unfolding to_end_def x
      by (cases "run b t") (auto simp: hd_map split: prod.splits dest: spec [of _ t])
  qed
  then have "concat (map ?f (run a s)) \<noteq> [] \<Longrightarrow> snd (hd (concat (map ?f (run a s)))) = []"
    by (rule hd_concat_map [where P = "\<lambda>p. snd p = []"])
  moreover have "run (Seq a b) s = concat (map ?f (run a s))" by simp
  ultimately show "run (Seq a b) s = [] \<or> snd (hd (run (Seq a b) s)) = []"
    by metis
qed

lemma hd_greedy: "hd (greedy c s) = dropWhile (in_cset c) s"
  using greedy_decomp [of c s] by auto

lemma dropWhile_ANY [simp]: "dropWhile (in_cset ANY) s = []"
  by (induction s) auto

lemma greedy_nonempty [simp]: "greedy c s \<noteq> []"
  using greedy_decomp [of c s] by auto

lemma to_end_tail: "to_end (compile [Star ANY, Opt (Chr (LitI CHR ''|''))])"
  unfolding to_end_def
proof
  fix s
  obtain ts where "greedy ANY s = [] # ts"
    using greedy_decomp [of ANY s] by auto
  then show "run (compile [Star ANY, Opt (Chr (LitI CHR ''|''))]) s = [] \<or>
         snd (hd (run (compile [Star ANY, Opt (Chr (LitI CHR ''|''))]) s)) = []"
    by simp
qed

lemma to_end_compile_append: "to_end (compile b) \<Longrightarrow> to_end (compile (a @ b))"
  by (induction a) (auto intro: to_end_Seq)

lemma to_end_TABLE: "to_end TABLE_PATTERN"
  unfolding TABLE_PATTERN_eq
  using to_end_compile_append [OF to_end_compile_append [OF to_end_tail]] by blast

lemma re_match_TABLE:
  "re_match TABLE_PATTERN page = (if occurs TABLE_HEADER_PATTERN page then
       Some (page # fst (hd (run TABLE_PATTERN page))) else None)"
proof (cases "run TABLE_PATTERN page")
  case Nil
  then show ?thesis using run_TABLE_nonempty [of page] by (simp add: re_match_def)
next
  case (Cons x xs)
  obtain g t where x: "x = (g, t)" by (cases x)
  have "t = []" using to_end_TABLE Cons x by (auto simp: to_end_def dest: spec [of _ page])
  then show ?thesis using run_TABLE_nonempty [of page] Cons x
    by (simp add: re_match_def consumed_def)
qed

section \<open>Classification of lines\<close>


text \<open>
  A header line, a filler line and a row differ in the first character after the opening
  pipe, so a line matches at most one of the three patterns.
\<close>

lemma lower_bar: "to_lower x = to_lower CHR ''|'' \<longleftrightarrow> x = CHR ''|''"
proof
  assume "to_lower x = to_lower CHR ''|''"
  then have "code (to_lower x) = code (to_lower CHR ''|'')" by simp
  then have "code x = code CHR ''|''"
    unfolding to_lower_code by (auto simp: code_def split: if_splits)
  then show "x = CHR ''|''" by (rule code_inj)
qed simp

lemma rejects_Space_bar: "rejects Space (Seq (Chr (Lit CHR ''|'')) r)"
  by (rule rejects_Chr) auto

lemma rejects_Space_barI: "rejects Space (Seq (Chr (LitI CHR ''|'')) r)"
  by (rule rejects_Chr) (auto simp: lower_bar)

lemma rejects_Space_digits: "rejects Space (Seq (Group (Plus Digit)) r)"
  by (rule rejects_Group_Plus) (auto dest: space_not_digit)

lemma rejects_Space_l: "rejects Space (Seq (Chr (LitI CHR ''l'')) r)"
  by (rule rejects_Chr) (auto dest: lower_l)

lemma rejects_Space_dash: "rejects Space (Seq (Plus (Lit CHR ''-'')) r)"
  by (rule rejects_Plus) auto

lemma in_cset_Space_eq: "in_cset Space = is_space"
  by (rule ext) simp

lemma second_charI:
  assumes "run (Seq (Star Space) (Seq (Chr a) (Seq (Star Space) r))) s \<noteq> []"
    and "rejects Space (Seq (Chr a) (Seq (Star Space) r))" and "rejects Space r"
    and "\<And>t. run r t \<noteq> [] \<Longrightarrow> \<exists>y ys. t = y # ys \<and> P y"
  shows "\<exists>y. second_char s = Some y \<and> P y"
proof -
  have 1: "run (Seq (Chr a) (Seq (Star Space) r)) (dropWhile is_space s) \<noteq> []"
    using assms(1) unfolding run_Seq_Star_skip [OF assms(2)] in_cset_Space_eq .
  then obtain x xs where x: "dropWhile is_space s = x # xs"
    by (cases "dropWhile is_space s") auto
  from 1 have "run (Seq (Star Space) r) xs \<noteq> []"
    unfolding x run_Seq_Chr by (auto split: if_splits)
  then have "run r (dropWhile is_space xs) \<noteq> []"
    unfolding run_Seq_Star_skip [OF assms(3)] in_cset_Space_eq .
  then obtain y ys where "dropWhile is_space xs = y # ys" "P y"
    using assms(4) by blast
  then show ?thesis by (simp add: second_char_def x)
qed

lemma Group_Plus_first: "run (Seq (Group (Plus c)) r) t \<noteq> [] \<Longrightarrow> \<exists>y ys. t = y # ys \<and> in_cset c y"
  by (cases t) (auto split: if_splits)

lemma Plus_first: "run (Seq (Plus c) r) t \<noteq> [] \<Longrightarrow> \<exists>y ys. t = y # ys \<and> in_cset c y"
  by (cases t) (auto split: if_splits)

lemma Chr_first: "run (Seq (Chr c) r) t \<noteq> [] \<Longrightarrow> \<exists>y ys. t = y # ys \<and> in_cset c y"
  by (cases t) (auto split: if_splits)

lemma ROW_second: "run ROW_PATTERN s \<noteq> [] \<Longrightarrow> \<exists>y. second_char s = Some y \<and> is_digit y"
  unfolding pattern_defs
  apply (simp del: run.simps)
  apply (erule second_charI [where P = "is_digit"])
    apply (rule rejects_Space_bar)
   apply (rule rejects_Space_digits)
  apply (drule Group_Plus_first)
  apply simp
  done

lemma HEADER_second: "run TABLE_HEADER_PATTERN s \<noteq> [] \<Longrightarrow>
    \<exists>y. second_char s = Some y \<and> to_lower y = to_lower CHR ''l''"
  unfolding TABLE_HEADER_PATTERN_def TABLE_HEADER_REGEX_def pattern_defs
  apply (simp del: run.simps)
  apply (erule second_charI [where P = "\<lambda>y. to_lower y = to_lower CHR ''l''"])
    apply (rule rejects_Space_barI)
   apply (rule rejects_Space_l)
  apply (drule Chr_first)
  apply simp
  done

lemma FILLER_second: "run FILLER_ROW_PATTERN s \<noteq> [] \<Longrightarrow>
    second_char s = Some CHR ''-''"
  unfolding FILLER_ROW_PATTERN_def FILLER_ROW_REGEX_COLUMN_def pattern_defs
  apply (simp add: numeral_3_eq_3 del: run.simps)
  apply (drule second_charI [where P = "\<lambda>y. y = CHR ''-''"])
    apply (rule rejects_Space_bar)
   apply (rule rejects_Space_dash)
    apply (drule Plus_first)
    apply simp
   apply simp
  done

lemma ROW_not_HEADER: "run ROW_PATTERN s \<noteq> [] \<Longrightarrow> run TABLE_HEADER_PATTERN s = []"
  using ROW_second [of s] HEADER_second [of s] lower_l by fastforce

lemma ROW_not_FILLER: "run ROW_PATTERN s \<noteq> [] \<Longrightarrow> run FILLER_ROW_PATTERN s = []"
  using ROW_second [of s] FILLER_second [of s] by fastforce

lemma filter_line_iff: "\<not> filter_line l \<longleftrightarrow> re_match ROW_PATTERN l \<noteq> None"
  unfolding filter_line_def re_match_None_iff
  using ROW_not_HEADER [of l] ROW_not_FILLER [of l] by auto

lemma from_page_eq:
  "from_page page = (if occurs TABLE_HEADER_PATTERN page
     then map line_to_row (filter (\<lambda>l. re_match ROW_PATTERN l \<noteq> None) (splitlines page))
     else [])"
  by (simp add: from_page_def re_match_TABLE filter_line_iff)

section \<open>Parsing a line\<close>


lemma re_match_starts_with: "re_match r s \<noteq> None \<longleftrightarrow> starts_with r s"
  by (simp add: re_match_None_iff run_nonempty_iff starts_with_def)

lemma contains_iff_occurs: "contains r s \<longleftrightarrow> occurs r s"
  unfolding contains_def occurs_iff run_nonempty_iff by blast

lemma re_match_Some:
  "re_match r s = Some m \<longleftrightarrow> (\<exists>g t rest. run r s = (g, t) # rest \<and> m = consumed s t # g)"
  by (auto simp: re_match_def split: list.splits)

lemma re_match_ROW_groups:
  assumes "re_match ROW_PATTERN l = Some m"
  shows "\<exists>w d p ti lk. m = [w, d, p, ti, lk] \<and> d \<noteq> [] \<and> list_all is_digit d
     \<and> p \<noteq> [] \<and> list_all (in_cset (Alt WordChar (Lit CHR ''-''))) p
     \<and> ti \<noteq> [] \<and> list_all (in_cset NAVLINK_TITLE_CLASS) ti
     \<and> list_all (in_cset (Alt WordChar (Alt (Lit CHR ''/'') (Lit CHR ''-'')))) lk"
proof -
  from assms obtain g t rest where gt: "run ROW_PATTERN l = (g, t) # rest" "m = consumed l t # g"
    unfolding re_match_Some by blast
  then have "(g, t) \<in> set (run ROW_PATTERN l)" by simp
  then obtain w where "(w, g) \<in> sem ROW_PATTERN" unfolding run_sem by blast
  from sem_ROW_groups [OF this] show ?thesis using gt(2) by blast
qed

lemma py_int_digits:
  "d \<noteq> [] \<Longrightarrow> list_all is_digit d \<Longrightarrow>
   py_int d = (if length d \<le> max_str_digits then Inr (int_of_digits d) else Inl ValueError)"
  by (simp add: py_int_def)

lemma line_to_row_match:
  assumes "re_match ROW_PATTERN l = Some m"
  shows "line_to_row l =
     (if length (m ! 1) \<le> max_str_digits then Inr (row_of m) else Inl ValueError)"
proof -
  from re_match_ROW_groups [OF assms] obtain w d p ti lk where
    m: "m = [w, d, p, ti, lk]" and d: "d \<noteq> []" "list_all is_digit d" by blast
  show ?thesis using assms py_int_digits [OF d] by (simp add: line_to_row_def m row_of_def)
qed

lemma line_to_row_row_of:
  "re_match ROW_PATTERN l = Some m \<Longrightarrow> length (m ! 1) \<le> max_str_digits \<Longrightarrow>
   line_to_row l = Inr (row_of m)"
  by (simp add: line_to_row_match)

lemma line_to_row_Some:
  assumes "re_match ROW_PATTERN l = Some m" and "length (m ! 1) \<le> max_str_digits"
  shows "line_to_row l = Inr \<lparr>level = int_of_digits (m ! 1), path = m ! 2,
     navlink = \<lparr>title = m ! 3, link = (if m ! 4 = [] then None else Some (m ! 4))\<rparr>\<rparr>"
  using line_to_row_row_of [OF assms] by (simp add: row_of_def)

lemma line_to_row_long:
  "re_match ROW_PATTERN l = Some m \<Longrightarrow> max_str_digits < length (m ! 1) \<Longrightarrow>
   line_to_row l = Inl ValueError"
  by (simp add: line_to_row_match)

lemma line_to_row_groups:
  assumes "re_match ROW_PATTERN l = Some (w # g)" and "re_match ROW_PATTERN l' = Some (w' # g)"
  shows "line_to_row l' = line_to_row l"
  by (simp add: line_to_row_match [OF assms(1)] line_to_row_match [OF assms(2)] row_of_def)

lemma line_to_row_None:
  "re_match ROW_PATTERN l = None \<Longrightarrow>
   line_to_row l = Inl (NavigationTableParseError (''Invalid table row, line='' @ py_repr l))"
  by (simp add: line_to_row_def)

text \<open>
  A line of printable characters other than the single quote and the backslash stands in
  the message as it is, between single quotes.
\<close>

lemma repr_char_plain:
  "is_printable c \<Longrightarrow> c \<noteq> q \<Longrightarrow> c \<noteq> CHR 0x5C \<Longrightarrow> repr_char q c = [c]"
  by (auto simp: repr_char_def is_printable_def code_def)

lemma py_repr_plain:
  assumes "list_all (\<lambda>c. is_printable c \<and> c \<noteq> CHR 0x27 \<and> c \<noteq> CHR 0x5C) l"
  shows "py_repr l = [CHR 0x27] @ l @ [CHR 0x27]"
proof -
  have q: "CHR 0x27 \<notin> set l" using assms by (auto simp: list_all_iff)
  have "concat (map (repr_char CHR 0x27) l) = l"
    using assms by (induction l) (simp_all add: repr_char_plain)
  then show ?thesis using q by (simp add: py_repr_def Let_def)
qed

text \<open>
  Claim C4, amended.  \<open>line_to_row\<close> raises \<^verbatim>\<open>NavigationTableParseError\<close> exactly when
  the line does not begin with a text of the row grammar
  \<^verbatim>\<open>| <level> | <path> | [<title>](<link>) |\<close>.  The message of the exception is
  \<^verbatim>\<open>Invalid table row, line=\<close> followed by the \<^verbatim>\<open>repr\<close> of the line, in which quotes,
  backslashes and characters that are not printable stand escaped.  When the line begins
  with a text of the row grammar, the outcome is the row of the groups of the match if the
  level has at most \<open>max_str_digits\<close> digits, and the \<^verbatim>\<open>ValueError\<close> of \<^verbatim>\<open>int\<close>
  otherwise.
\<close>

theorem line_to_row_error_iff:
  "((\<exists>msg. line_to_row l = Inl (NavigationTableParseError msg)) \<longleftrightarrow>
      \<not> starts_with ROW_PATTERN l)
   \<and> line_to_row l =
      (case re_match ROW_PATTERN l of
         None \<Rightarrow> Inl (NavigationTableParseError (''Invalid table row, line='' @ py_repr l))
       | Some m \<Rightarrow>
           if length (m ! 1) \<le> max_str_digits then Inr (row_of m) else Inl ValueError)"
proof (cases "re_match ROW_PATTERN l")
  case None
  then show ?thesis
    using re_match_starts_with [of ROW_PATTERN l] by (simp add: line_to_row_None)
next
  case (Some m)
  then show ?thesis
    using re_match_starts_with [of ROW_PATTERN l] by (simp add: line_to_row_match)
qed

lemma row_a: "re_match ROW_PATTERN ''| 1 | a | [A]() |'' = Some [''| 1 | a | [A]() |'', ''1'', ''a'', ''A'', '''']"
  by code_simp

lemma no_row_level_x: "re_match ROW_PATTERN ''| x | a | [A]() |'' = None"
  by code_simp

theorem line_to_row_error_iff_witness:
  "line_to_row ''| 1 | a | [A]() |''
     = Inr \<lparr>level = 1, path = ''a'', navlink = \<lparr>title = ''A'', link = None\<rparr>\<rparr>
   \<and> starts_with ROW_PATTERN ''| 1 | a | [A]() |''
   \<and> line_to_row ''| x | a | [A]() |''
     = Inl (NavigationTableParseError
         (''Invalid table row, line='' @ [CHR 0x27] @ ''| x | a | [A]() |'' @ [CHR 0x27]))
   \<and> \<not> starts_with ROW_PATTERN ''| x | a | [A]() |''"
proof -
  have 1: "line_to_row ''| 1 | a | [A]() |''
      = Inr \<lparr>level = 1, path = ''a'', navlink = \<lparr>title = ''A'', link = None\<rparr>\<rparr>"
    "\<not> (\<exists>msg. line_to_row ''| 1 | a | [A]() |'' = Inl (NavigationTableParseError msg))"
    using line_to_row_error_iff [of "''| 1 | a | [A]() |''"]
    by (simp_all add: row_a row_of_def max_str_digits_def int_of_digits_def digit_value_def code_def)
  have r: "py_repr ''| x | a | [A]() |'' = [CHR 0x27] @ ''| x | a | [A]() |'' @ [CHR 0x27]"
    by code_simp
  have 2: "line_to_row ''| x | a | [A]() |''
      = Inl (NavigationTableParseError
          (''Invalid table row, line='' @ [CHR 0x27] @ ''| x | a | [A]() |'' @ [CHR 0x27]))"
    using line_to_row_error_iff [of "''| x | a | [A]() |''"]
    by (simp add: no_row_level_x r)
  from 1(2) have 3: "starts_with ROW_PATTERN ''| 1 | a | [A]() |''"
    using line_to_row_error_iff [of "''| 1 | a | [A]() |''"] by blast
  from 2 have 4: "\<not> starts_with ROW_PATTERN ''| x | a | [A]() |''"
    using line_to_row_error_iff [of "''| x | a | [A]() |''"] by blast
  show ?thesis using 1(1) 2 3 4 by blast
qed

lemma consume_map_Inr [simp]: "consume (map Inr xs) = Inr xs"
  by (induction xs) auto

lemma consume_Inl: "consume rs = Inl e \<Longrightarrow> Inl e \<in> set rs"
proof (induction rs)
  case Nil
  then show ?case by simp
next
  case (Cons r rs)
  then show ?case by (cases r) (auto split: sum.splits)
qed

lemma consume_outcomes:
  "list_all (\<lambda>r. (\<exists>x. r = Inr x) \<or> r = Inl e) rs \<Longrightarrow>
   (\<exists>xs. consume rs = Inr xs) \<or> consume rs = Inl e"
proof (induction rs)
  case Nil
  then show ?case by simp
next
  case (Cons r rs)
  then show ?case by (cases r) (auto split: sum.splits)
qed

lemma map_line_to_row:
  "list_all (\<lambda>l. re_match ROW_PATTERN l \<noteq> None
       \<and> length (the (re_match ROW_PATTERN l) ! 1) \<le> max_str_digits) ls \<Longrightarrow>
   map line_to_row ls = map Inr (map (\<lambda>l. row_of (the (re_match ROW_PATTERN l))) ls)"
  by (induction ls) (auto simp: line_to_row_row_of)

lemma line_to_row_outcomes:
  "re_match ROW_PATTERN l \<noteq> None \<Longrightarrow> (\<exists>row. line_to_row l = Inr row) \<or> line_to_row l = Inl ValueError"
  by (auto simp: line_to_row_match split: if_splits)

lemma from_page_outcomes:
  "r \<in> set (from_page page) \<Longrightarrow> (\<exists>row. r = Inr row) \<or> r = Inl ValueError"
proof -
  assume "r \<in> set (from_page page)"
  then obtain l where "re_match ROW_PATTERN l \<noteq> None" "r = line_to_row l"
    unfolding from_page_eq by (auto split: if_splits)
  then show ?thesis using line_to_row_outcomes [of l] by simp
qed

lemma from_page_no_parse_error:
  "Inl (NavigationTableParseError msg) \<notin> set (from_page page)"
  using from_page_outcomes [of "Inl (NavigationTableParseError msg)" page] by auto

text \<open>
  Claim C3.  Whatever the page, no step of the generator of \<open>from_page\<close> raises
  \<^verbatim>\<open>NavigationTableParseError\<close>, and neither does running it to its end: the filter
  passes only lines that the row pattern matches, so the branch of \<open>line_to_row\<close> that
  raises this exception is not reached.  (The \<^verbatim>\<open>ValueError\<close> of \<^verbatim>\<open>int\<close> for a level
  of more than \<open>max_str_digits\<close> digits is the one exception that can come out.)
\<close>

theorem from_page_never_parse_error:
  "Inl (NavigationTableParseError msg) \<notin> set (from_page page)
   \<and> consume (from_page page) \<noteq> Inl (NavigationTableParseError msg)
   \<and> ((\<exists>rows. consume (from_page page) = Inr rows) \<or> consume (from_page page) = Inl ValueError)"
proof -
  have 1: "Inl (NavigationTableParseError msg) \<notin> set (from_page page)"
    by (rule from_page_no_parse_error)
  then have 2: "consume (from_page page) \<noteq> Inl (NavigationTableParseError msg)"
    using consume_Inl [of "from_page page"] by blast
  have "list_all (\<lambda>r. (\<exists>x. r = Inr x) \<or> r = Inl ValueError) (from_page page)"
    unfolding list_all_iff using from_page_outcomes [of _ page] by blast
  then have "(\<exists>rows. consume (from_page page) = Inr rows) \<or> consume (from_page page) = Inl ValueError"
    by (rule consume_outcomes)
  with 1 2 show ?thesis by blast
qed

text \<open>
  Claim C2.  A page that contains no text of the header grammar (the cells level, path and
  navlink in this order, in any case, with any blanks around the cells and the pipes) gives
  an empty generator, and consuming it raises nothing.
\<close>

theorem from_page_no_header:
  assumes "\<not> contains TABLE_HEADER_PATTERN page"
  shows "from_page page = [] \<and> consume (from_page page) = Inr []"
  using assms by (simp add: from_page_eq contains_iff_occurs)

theorem from_page_no_header_witness:
  "\<not> contains TABLE_HEADER_PATTERN ''| 1 | a | [A]() |''
   \<and> from_page ''| 1 | a | [A]() |'' = []
   \<and> consume (from_page ''| 1 | a | [A]() |'') = Inr []"
proof -
  have h: "\<not> contains TABLE_HEADER_PATTERN ''| 1 | a | [A]() |''"
    unfolding contains_iff_occurs by code_simp
  show ?thesis using from_page_no_header [OF h] h by blast
qed

section \<open>Pages\<close>


lemma splitlines_from_sub:
  "l \<in> set (splitlines_from cur s) \<Longrightarrow> \<exists>pre suf. cur @ s = pre @ l @ suf"
proof (induction cur s rule: splitlines_from.induct)
  case (1 cur)
  then show ?case by (auto split: if_splits intro: exI [of _ "[]"])
next
  case (2 cur c)
  then show ?case
    by (auto split: if_splits intro: exI [of _ "[]"])
next
  case (3 cur c d cs)
  show ?case
  proof (cases "c = CHR 0x0D \<and> d = CHR 0x0A")
    case True
    with 3 have "l = cur \<or> (\<exists>pre suf. cs = pre @ l @ suf)" by auto
    then show ?thesis
    proof
      assume "l = cur" then show ?thesis by (auto intro: exI [of _ "[]"])
    next
      assume "\<exists>pre suf. cs = pre @ l @ suf"
      then obtain pre suf where "cs = pre @ l @ suf" by blast
      then have "cur @ c # d # cs = (cur @ c # d # pre) @ l @ suf" by simp
      then show ?thesis by blast
    qed
  next
    case False
    note nocrlf = this
    show ?thesis
    proof (cases "is_linebreak c")
      case True
      with 3 nocrlf have "l = cur \<or> (\<exists>pre suf. d # cs = pre @ l @ suf)" by auto
      then show ?thesis
      proof
        assume "l = cur" then show ?thesis by (auto intro: exI [of _ "[]"])
      next
        assume "\<exists>pre suf. d # cs = pre @ l @ suf"
        then obtain pre suf where "d # cs = pre @ l @ suf" by blast
        then have "cur @ c # d # cs = (cur @ c # pre) @ l @ suf" by simp
        then show ?thesis by blast
      qed
    next
      case False
      with 3 nocrlf have "\<exists>pre suf. (cur @ [c]) @ d # cs = pre @ l @ suf" by auto
      then show ?thesis by simp
    qed
  qed
qed

lemma splitlines_sub: "l \<in> set (splitlines s) \<Longrightarrow> \<exists>pre suf. s = pre @ l @ suf"
  using splitlines_from_sub [of l "[]" s] by (simp add: splitlines_def)

lemma header_line_occurs:
  assumes "list_ex (\<lambda>l. re_match TABLE_HEADER_PATTERN l \<noteq> None) (splitlines page)"
  shows "occurs TABLE_HEADER_PATTERN page"
proof -
  from assms obtain l where l: "l \<in> set (splitlines page)" "run TABLE_HEADER_PATTERN l \<noteq> []"
    by (auto simp: list_ex_iff re_match_None_iff)
  from splitlines_sub [OF l(1)] obtain pre suf where "page = pre @ l @ suf" by blast
  moreover have "run TABLE_HEADER_PATTERN (l @ suf) \<noteq> []" using l(2) by (rule run_extend)
  ultimately show ?thesis unfolding occurs_iff by blast
qed



lemma header_line_match: "re_match TABLE_HEADER_PATTERN ''| Level | Path | Navlink |'' \<noteq> None"
  by code_simp

lemma header_line_not_row: "re_match ROW_PATTERN ''| Level | Path | Navlink |'' = None"
  by code_simp


lemma example_page_lines:
  "splitlines example_page =
     [''Some intro text.'', '''', ''| Level | Path | Navlink |'', ''| -- | -- | -- |'',
      ''| 1 | group-1 | [Group 1]() |'', ''| 2 | page-1 | [Page 1](group-1/page-1) |'']"
  by (simp add: example_page_def splitlines_def is_linebreak_def code_def)

lemma example_no_rows:
  "re_match ROW_PATTERN ''Some intro text.'' = None"
  "re_match ROW_PATTERN '''' = None"
  "re_match ROW_PATTERN ''| -- | -- | -- |'' = None"
  by code_simp+

lemma example_row_1:
  "re_match ROW_PATTERN ''| 1 | group-1 | [Group 1]() |'' =
     Some [''| 1 | group-1 | [Group 1]() |'', ''1'', ''group-1'', ''Group 1'', '''']"
  by code_simp

lemma example_row_2:
  "re_match ROW_PATTERN ''| 2 | page-1 | [Page 1](group-1/page-1) |'' =
     Some [''| 2 | page-1 | [Page 1](group-1/page-1) |'', ''2'', ''page-1'', ''Page 1'',
           ''group-1/page-1'']"
  by code_simp

text \<open>
  Claim C1.  On the example page of the specification \<open>from_page\<close> yields exactly the two
  rows of the table, in order.
\<close>

theorem from_page_example:
  "from_page example_page =
     [Inr \<lparr>level = 1, path = ''group-1'', navlink = \<lparr>title = ''Group 1'', link = None\<rparr>\<rparr>,
      Inr \<lparr>level = 2, path = ''page-1'',
           navlink = \<lparr>title = ''Page 1'', link = Some ''group-1/page-1''\<rparr>\<rparr>]"
proof -
  have "list_ex (\<lambda>l. re_match TABLE_HEADER_PATTERN l \<noteq> None) (splitlines example_page)"
    using header_line_match by (simp add: example_page_lines)
  then have "occurs TABLE_HEADER_PATTERN example_page" by (rule header_line_occurs)
  then have "from_page example_page =
      [line_to_row ''| 1 | group-1 | [Group 1]() |'',
       line_to_row ''| 2 | page-1 | [Page 1](group-1/page-1) |'']"
    by (simp add: from_page_eq example_page_lines example_no_rows header_line_not_row
        example_row_1 example_row_2)
  then show ?thesis
    by (simp add: line_to_row_Some [OF example_row_1] line_to_row_Some [OF example_row_2]
        max_str_digits_def int_of_digits_def digit_value_def code_def)
qed


section \<open>Lines of a page\<close>

lemma splitlines_from_terminated:
  "list_all (\<lambda>c. \<not> is_linebreak c) l \<Longrightarrow>
   splitlines_from cur (l @ CHR 0x0A # rest) = (cur @ l) # splitlines_from [] rest"
proof (induction l arbitrary: cur)
  case Nil
  have "is_linebreak CHR 0x0A" by (simp add: is_linebreak_def code_def)
  then show ?case by (cases rest) auto
next
  case (Cons c l)
  then have c: "\<not> is_linebreak c" and l: "list_all (\<lambda>c. \<not> is_linebreak c) l" by auto
  have "is_linebreak CHR 0x0D" by (simp add: is_linebreak_def code_def)
  with c have "c \<noteq> CHR 0x0D" by auto
  obtain d ds where d: "l @ CHR 0x0A # rest = d # ds" by (cases "l @ CHR 0x0A # rest") auto
  have "splitlines_from cur (c # l @ CHR 0x0A # rest) =
        splitlines_from (cur @ [c]) (l @ CHR 0x0A # rest)"
    unfolding d using c \<open>c \<noteq> CHR 0x0D\<close> by simp
  then show ?case using Cons.IH [OF l, of "cur @ [c]"] by simp
qed

lemma splitlines_from_last:
  "list_all (\<lambda>c. \<not> is_linebreak c) l \<Longrightarrow> cur @ l \<noteq> [] \<Longrightarrow>
   splitlines_from cur l = [cur @ l]"
proof (induction l arbitrary: cur)
  case Nil
  then show ?case by simp
next
  case (Cons c l)
  then have c: "\<not> is_linebreak c" and l: "list_all (\<lambda>c. \<not> is_linebreak c) l" by auto
  have "is_linebreak CHR 0x0D" by (simp add: is_linebreak_def code_def)
  with c have "c \<noteq> CHR 0x0D" by auto
  show ?case
  proof (cases l)
    case Nil
    then show ?thesis using c by simp
  next
    case (Cons d ds)
    have "splitlines_from cur (c # l) = splitlines_from (cur @ [c]) l"
      unfolding Cons using c \<open>c \<noteq> CHR 0x0D\<close> by simp
    then show ?thesis using Cons.IH [OF l, of "cur @ [c]"] by simp
  qed
qed

lemma splitlines_join_lines:
  "list_all (\<lambda>l. l \<noteq> [] \<and> list_all (\<lambda>c. \<not> is_linebreak c) l) ls \<Longrightarrow>
   splitlines (join_lines ls) = ls"
proof (induction ls rule: join_lines.induct)
  case 1
  then show ?case by (simp add: splitlines_def)
next
  case (2 l)
  then show ?case using splitlines_from_last [of l "[]"] by (simp add: splitlines_def)
next
  case (3 l m ls)
  then show ?case
    using splitlines_from_terminated [of l "[]" "join_lines (m # ls)"]
    by (simp add: splitlines_def)
qed

lemma run_ROW_Nil: "run ROW_PATTERN [] = []"
  by code_simp

lemma run_HEADER_Nil: "run TABLE_HEADER_PATTERN [] = []"
  by code_simp

lemma run_FILLER_Nil: "run FILLER_ROW_PATTERN [] = []"
  by code_simp

lemma from_page_table:
  assumes "re_match TABLE_HEADER_PATTERN h \<noteq> None"
    and "re_match FILLER_ROW_PATTERN f \<noteq> None"
    and "list_all (\<lambda>r. re_match ROW_PATTERN r \<noteq> None) rows"
    and "list_all (\<lambda>l. list_all (\<lambda>c. \<not> is_linebreak c) l) (h # f # rows)"
  shows "from_page (join_lines (h # f # rows)) = map line_to_row rows"
proof -
  let ?page = "join_lines (h # f # rows)"
  have h: "run TABLE_HEADER_PATTERN h \<noteq> []" and f: "run FILLER_ROW_PATTERN f \<noteq> []"
    using assms(1,2) by (simp_all add: re_match_None_iff)
  have rows: "\<And>r. r \<in> set rows \<Longrightarrow> run ROW_PATTERN r \<noteq> []"
    using assms(3) by (simp add: list_all_iff re_match_None_iff)
  have "h \<noteq> []" "f \<noteq> []" "\<And>r. r \<in> set rows \<Longrightarrow> r \<noteq> []"
    using h f rows run_HEADER_Nil run_FILLER_Nil run_ROW_Nil by auto
  then have "list_all (\<lambda>l. l \<noteq> [] \<and> list_all (\<lambda>c. \<not> is_linebreak c) l) (h # f # rows)"
    using assms(4) by (simp add: list_all_iff)
  then have lines: "splitlines ?page = h # f # rows" by (rule splitlines_join_lines)
  have "list_ex (\<lambda>l. re_match TABLE_HEADER_PATTERN l \<noteq> None) (splitlines ?page)"
    using assms(1) unfolding lines by simp
  then have occ: "occurs TABLE_HEADER_PATTERN ?page" by (rule header_line_occurs)
  have "re_match ROW_PATTERN h = None" "re_match ROW_PATTERN f = None"
    using h f ROW_not_HEADER [of h] ROW_not_FILLER [of f] by (auto simp: re_match_None_iff)
  moreover have "filter (\<lambda>l. re_match ROW_PATTERN l \<noteq> None) rows = rows"
    using assms(3) by (simp add: list_all_iff)
  ultimately show ?thesis
    using occ unfolding from_page_eq lines by simp
qed

text \<open>
  Claim C5, amended.  Round trip: a page made of a header line, a filler line and N lines
  that the row pattern matches, with levels of at most \<open>max_str_digits\<close> digits, joined by
  line feeds, yields exactly N rows, the i-th being the row of the i-th line.
\<close>

theorem round_trip:
  assumes "re_match TABLE_HEADER_PATTERN h \<noteq> None"
    and "re_match FILLER_ROW_PATTERN f \<noteq> None"
    and "list_all (\<lambda>r. re_match ROW_PATTERN r \<noteq> None) rows"
    and "list_all (\<lambda>r. length (the (re_match ROW_PATTERN r) ! 1) \<le> max_str_digits) rows"
    and "list_all (\<lambda>l. list_all (\<lambda>c. \<not> is_linebreak c) l) (h # f # rows)"
  shows "\<exists>parsed. consume (from_page (join_lines (h # f # rows))) = Inr parsed
     \<and> length parsed = length rows
     \<and> parsed = map (\<lambda>r. row_of (the (re_match ROW_PATTERN r))) rows
     \<and> map Inr parsed = map line_to_row rows"
proof -
  have fp: "from_page (join_lines (h # f # rows)) = map line_to_row rows"
    using assms(1,2,3,5) by (rule from_page_table)
  define parsed where "parsed = map (\<lambda>l. row_of (the (re_match ROW_PATTERN l))) rows"
  have "list_all (\<lambda>l. re_match ROW_PATTERN l \<noteq> None
      \<and> length (the (re_match ROW_PATTERN l) ! 1) \<le> max_str_digits) rows"
    using assms(3,4) by (simp add: list_all_iff)
  from map_line_to_row [OF this]
  have p: "map line_to_row rows = map Inr parsed" "length parsed = length rows"
    by (simp_all add: parsed_def)
  have c: "consume (from_page (join_lines (h # f # rows))) = Inr parsed"
    unfolding fp p(1) by (rule consume_map_Inr)
  have "consume (from_page (join_lines (h # f # rows))) = Inr parsed
     \<and> length parsed = length rows
     \<and> parsed = map (\<lambda>r. row_of (the (re_match ROW_PATTERN r))) rows
     \<and> map Inr parsed = map line_to_row rows"
    using c p(2) p(1) [symmetric] parsed_def by (intro conjI)
  then show ?thesis by (intro exI)
qed

theorem round_trip_witness:
  "re_match TABLE_HEADER_PATTERN ''| Level | Path | Navlink |'' \<noteq> None
   \<and> re_match FILLER_ROW_PATTERN ''| -- | -- | -- |'' \<noteq> None
   \<and> list_all (\<lambda>r. re_match ROW_PATTERN r \<noteq> None)
        [''| 1 | group-1 | [Group 1]() |'', ''| 2 | page-1 | [Page 1](group-1/page-1) |'']
   \<and> list_all (\<lambda>r. length (the (re_match ROW_PATTERN r) ! 1) \<le> max_str_digits)
        [''| 1 | group-1 | [Group 1]() |'', ''| 2 | page-1 | [Page 1](group-1/page-1) |'']
   \<and> consume (from_page (join_lines
          [''| Level | Path | Navlink |'', ''| -- | -- | -- |'',
           ''| 1 | group-1 | [Group 1]() |'', ''| 2 | page-1 | [Page 1](group-1/page-1) |'']))
       = Inr [\<lparr>level = 1, path = ''group-1'', navlink = \<lparr>title = ''Group 1'', link = None\<rparr>\<rparr>,
              \<lparr>level = 2, path = ''page-1'',
                navlink = \<lparr>title = ''Page 1'', link = Some ''group-1/page-1''\<rparr>\<rparr>]"
proof -
  let ?rows = "[''| 1 | group-1 | [Group 1]() |'', ''| 2 | page-1 | [Page 1](group-1/page-1) |'']"
  have f: "re_match FILLER_ROW_PATTERN ''| -- | -- | -- |'' \<noteq> None" by code_simp
  have r: "list_all (\<lambda>r. re_match ROW_PATTERN r \<noteq> None) ?rows"
    by (simp add: example_row_1 example_row_2)
  have d: "list_all (\<lambda>r. length (the (re_match ROW_PATTERN r) ! 1) \<le> max_str_digits) ?rows"
    by (simp add: example_row_1 example_row_2 max_str_digits_def)
  have l: "list_all (\<lambda>l. list_all (\<lambda>c. \<not> is_linebreak c) l)
      (''| Level | Path | Navlink |'' # ''| -- | -- | -- |'' # ?rows)"
    by (simp add: is_linebreak_def code_def)
  from round_trip [OF header_line_match f r d l] obtain parsed where
    p: "consume (from_page (join_lines (''| Level | Path | Navlink |'' # ''| -- | -- | -- |'' # ?rows)))
       = Inr parsed"
    and q: "parsed = map (\<lambda>r. row_of (the (re_match ROW_PATTERN r))) ?rows"
    by (elim exE conjE)
  have "map (\<lambda>r. row_of (the (re_match ROW_PATTERN r))) ?rows
      = [\<lparr>level = 1, path = ''group-1'', navlink = \<lparr>title = ''Group 1'', link = None\<rparr>\<rparr>,
         \<lparr>level = 2, path = ''page-1'',
           navlink = \<lparr>title = ''Page 1'', link = Some ''group-1/page-1''\<rparr>\<rparr>]"
    by (simp add: example_row_1 example_row_2 row_of_def int_of_digits_def digit_value_def
        code_def)
  with p q have "consume (from_page (join_lines
          (''| Level | Path | Navlink |'' # ''| -- | -- | -- |'' # ?rows)))
       = Inr [\<lparr>level = 1, path = ''group-1'', navlink = \<lparr>title = ''Group 1'', link = None\<rparr>\<rparr>,
              \<lparr>level = 2, path = ''page-1'',
                navlink = \<lparr>title = ''Page 1'', link = Some ''group-1/page-1''\<rparr>\<rparr>]"
    by simp
  then show ?thesis using header_line_match f r d by blast
qed


section \<open>The link of a row\<close>

lemma sem_ROW_link_cell:
  assumes "(w, g) \<in> sem ROW_PATTERN"
  shows "\<exists>a w9 lk w10 w11. w = a @ CHR ''('' # w9 @ lk @ w10 @ CHR '')'' # w11 @ [CHR ''|'']
     \<and> g ! 3 = lk \<and> list_all is_space w9 \<and> list_all is_space w10 \<and> list_all is_space w11
     \<and> list_all (in_cset (Alt WordChar (Alt (Lit CHR ''/'') (Lit CHR ''-'')))) lk"
  using assms unfolding pattern_defs
  apply (clarsimp simp: list_all_iff)
  subgoal for w0 w1 d w2 w3 p w4 w5 w6 ti w7 w8 w9 lk w10 w11
    apply (rule exI [of _ "w0 @ CHR ''|'' # w1 @ d @ w2 @ CHR ''|'' # w3 @ p @ w4 @ CHR ''|'' # w5 @ CHR ''['' # w6 @ ti @ w7 @ CHR '']'' # w8"])
    apply (rule exI [of _ w9], rule exI [of _ w10], rule exI [of _ w11])
    apply simp
    done
  done

lemma link_char_not_space:
  "in_cset (Alt WordChar (Alt (Lit CHR ''/'') (Lit CHR ''-''))) c \<Longrightarrow> \<not> is_space c"
  using space_not_word by auto

lemma link_char_not_paren:
  "in_cset (Alt WordChar (Alt (Lit CHR ''/'') (Lit CHR ''-''))) c \<Longrightarrow> c \<noteq> CHR ''(''"
  by auto

lemma blanks_then_char_unique:
  assumes "u @ x # r = v @ y # r'" "list_all P u" "list_all P v" "\<not> P x" "\<not> P y"
  shows "u = v \<and> x = y \<and> r = r'"
proof -
  have "takeWhile P (u @ x # r) = u" "dropWhile P (u @ x # r) = x # r"
    using assms(2,4) by (simp_all add: list_all_iff takeWhile_append2 dropWhile_append2)
  moreover have "takeWhile P (v @ y # r') = v" "dropWhile P (v @ y # r') = y # r'"
    using assms(3,5) by (simp_all add: list_all_iff takeWhile_append2 dropWhile_append2)
  ultimately show ?thesis using assms(1) by simp
qed


lemma blank_link_cell:
  assumes "(w, g) \<in> sem ROW_PATTERN"
    and "w = pre @ ''('' @ ws @ '')'' @ ws' @ ''|''"
    and "list_all is_space ws" "list_all is_space ws'"
  shows "g ! 3 = []"
proof -
  from sem_ROW_link_cell [OF assms(1)] obtain a w9 lk w10 w11 where
    w: "w = a @ CHR ''('' # w9 @ lk @ w10 @ CHR '')'' # w11 @ [CHR ''|'']"
    and g: "g ! 3 = lk" and sp: "list_all is_space w9" "list_all is_space w10" "list_all is_space w11"
    and lk: "list_all (in_cset (Alt WordChar (Alt (Lit CHR ''/'') (Lit CHR ''-'')))) lk"
    by blast
  have "rev w = CHR ''|'' # rev w11 @ CHR '')'' # rev w10 @ rev lk @ rev w9 @ CHR ''('' # rev a"
    by (simp add: w)
  moreover have "rev w = CHR ''|'' # rev ws' @ CHR '')'' # rev ws @ CHR ''('' # rev pre"
    by (simp add: assms(2))
  ultimately have "rev w11 @ CHR '')'' # (rev w10 @ rev lk @ rev w9 @ CHR ''('' # rev a)
      = rev ws' @ CHR '')'' # (rev ws @ CHR ''('' # rev pre)"
    by simp
  from blanks_then_char_unique [OF this, of is_space]
  have eq: "rev w10 @ rev lk @ rev w9 @ CHR ''('' # rev a = rev ws @ CHR ''('' # rev pre"
    using sp(3) assms(4) by simp
  show ?thesis
  proof (cases lk rule: rev_cases)
    case Nil
    then show ?thesis using g by simp
  next
    case (snoc ys y)
    then have y: "\<not> is_space y" "y \<noteq> CHR ''(''"
      using lk link_char_not_space [of y] by auto
    from eq have "rev w10 @ y # (rev ys @ rev w9 @ CHR ''('' # rev a) = rev ws @ CHR ''('' # rev pre"
      by (simp add: snoc)
    from blanks_then_char_unique [OF this, of is_space] have "y = CHR ''(''"
      using sp(2) assms(3) y(1) by simp
    then show ?thesis using y(2) by simp
  qed
qed

text \<open>
  Claim C7.  Link omission: for a line that the row pattern matches and that parses to a
  row, the link of the row is \<open>None\<close> exactly when the text of group 4 is empty and is
  that text otherwise.  The text of the group holds no blank, and a link cell with nothing
  but blanks between its parentheses gives \<open>None\<close>.
\<close>

theorem link_omission:
  assumes "re_match ROW_PATTERN l = Some m" and "line_to_row l = Inr row"
  shows "link (navlink row) = (if m ! 4 = [] then None else Some (m ! 4))
     \<and> list_all (\<lambda>c. \<not> is_space c) (m ! 4)
     \<and> (\<forall>pre ws ws'. list_all is_space ws \<and> list_all is_space ws'
            \<and> m ! 0 = pre @ ''('' @ ws @ '')'' @ ws' @ ''|''
          \<longrightarrow> link (navlink row) = None)"
proof -
  from assms(1) obtain g t rest where gt: "run ROW_PATTERN l = (g, t) # rest" "m = consumed l t # g"
    unfolding re_match_Some by blast
  then have "(g, t) \<in> set (run ROW_PATTERN l)" by simp
  then obtain w where w: "l = w @ t" "(w, g) \<in> sem ROW_PATTERN" unfolding run_sem by blast
  have m: "m ! 0 = w" "m ! 4 = g ! 3" using gt(2) w(1) by simp_all
  have row: "row = row_of m"
    using assms(2) unfolding line_to_row_match [OF assms(1)] by (simp split: if_splits)
  show ?thesis
  proof (intro conjI allI impI)
    show "link (navlink row) = (if m ! 4 = [] then None else Some (m ! 4))"
      by (simp add: row row_of_def)
    show "list_all (\<lambda>c. \<not> is_space c) (m ! 4)"
      using sem_ROW_link_cell [OF w(2)] link_char_not_space
      unfolding m list_all_iff by blast
  next
    fix pre ws ws'
    assume a: "list_all is_space ws \<and> list_all is_space ws'
       \<and> m ! 0 = pre @ ''('' @ ws @ '')'' @ ws' @ ''|''"
    then have "w = pre @ ''('' @ ws @ '')'' @ ws' @ ''|''" unfolding m by blast
    from blank_link_cell [OF w(2) this] a have "m ! 4 = []" unfolding m by blast
    then show "link (navlink row) = None" by (simp add: row row_of_def)
  qed
qed

lemma title_row_1:
  "re_match ROW_PATTERN ''| 1 | a | [Title]() |'' =
     Some [''| 1 | a | [Title]() |'', ''1'', ''a'', ''Title'', []]"
  by code_simp

lemma title_row_2:
  "re_match ROW_PATTERN ''| 1 | a | [Title](some/path) |'' =
     Some [''| 1 | a | [Title](some/path) |'', ''1'', ''a'', ''Title'', ''some/path'']"
  by code_simp

lemma title_row_3:
  "re_match ROW_PATTERN ''| 1 | a | [Title](   ) |'' =
     Some [''| 1 | a | [Title](   ) |'', ''1'', ''a'', ''Title'', []]"
  by code_simp

lemma title_rows_parse:
  "line_to_row ''| 1 | a | [Title]() |''
     = Inr \<lparr>level = 1, path = ''a'', navlink = \<lparr>title = ''Title'', link = None\<rparr>\<rparr>"
  "line_to_row ''| 1 | a | [Title](some/path) |''
     = Inr \<lparr>level = 1, path = ''a'', navlink = \<lparr>title = ''Title'', link = Some ''some/path''\<rparr>\<rparr>"
  "line_to_row ''| 1 | a | [Title](   ) |''
     = Inr \<lparr>level = 1, path = ''a'', navlink = \<lparr>title = ''Title'', link = None\<rparr>\<rparr>"
  by (simp_all add: line_to_row_Some [OF title_row_1] line_to_row_Some [OF title_row_2]
      line_to_row_Some [OF title_row_3] max_str_digits_def int_of_digits_def digit_value_def code_def)

theorem link_omission_witness:
  "re_match ROW_PATTERN ''| 1 | a | [Title]() |''
     = Some [''| 1 | a | [Title]() |'', ''1'', ''a'', ''Title'', []]
   \<and> (\<exists>row. line_to_row ''| 1 | a | [Title]() |'' = Inr row \<and> link (navlink row) = None)
   \<and> re_match ROW_PATTERN ''| 1 | a | [Title](some/path) |''
     = Some [''| 1 | a | [Title](some/path) |'', ''1'', ''a'', ''Title'', ''some/path'']
   \<and> (\<exists>row. line_to_row ''| 1 | a | [Title](some/path) |'' = Inr row
        \<and> link (navlink row) = Some ''some/path'')
   \<and> re_match ROW_PATTERN ''| 1 | a | [Title](   ) |''
     = Some [''| 1 | a | [Title](   ) |'', ''1'', ''a'', ''Title'', []]
   \<and> (\<exists>row. line_to_row ''| 1 | a | [Title](   ) |'' = Inr row \<and> link (navlink row) = None)"
proof -
  let ?r1 = "\<lparr>level = 1, path = ''a'', navlink = \<lparr>title = ''Title'', link = None\<rparr>\<rparr>"
  let ?r2 = "\<lparr>level = 1, path = ''a'',
      navlink = \<lparr>title = ''Title'', link = Some ''some/path''\<rparr>\<rparr>"
  from link_omission [OF title_row_1 title_rows_parse(1)]
  have 1: "link (navlink ?r1) = (if [''| 1 | a | [Title]() |'', ''1'', ''a'', ''Title'', []] ! 4 = []
      then None else Some ([''| 1 | a | [Title]() |'', ''1'', ''a'', ''Title'', []] ! 4))"
    by (elim conjE)
  from link_omission [OF title_row_2 title_rows_parse(2)]
  have 2: "link (navlink ?r2)
      = (if [''| 1 | a | [Title](some/path) |'', ''1'', ''a'', ''Title'', ''some/path''] ! 4 = []
         then None
         else Some ([''| 1 | a | [Title](some/path) |'', ''1'', ''a'', ''Title'', ''some/path''] ! 4))"
    by (elim conjE)
  from link_omission [OF title_row_3 title_rows_parse(3)]
  have blank: "\<forall>pre ws ws'. list_all is_space ws \<and> list_all is_space ws'
        \<and> [''| 1 | a | [Title](   ) |'', ''1'', ''a'', ''Title'', []] ! 0
            = pre @ ''('' @ ws @ '')'' @ ws' @ ''|''
        \<longrightarrow> link (navlink ?r1) = None"
    by (elim conjE)
  have "list_all is_space ''   '' \<and> list_all is_space '' ''
      \<and> [''| 1 | a | [Title](   ) |'', ''1'', ''a'', ''Title'', []] ! 0
          = ''| 1 | a | [Title]'' @ ''('' @ ''   '' @ '')'' @ '' '' @ ''|''"
    by simp
  with blank have 3: "link (navlink ?r1) = None" by blast
  from 1 have 4: "link (navlink ?r1) = None" by simp
  from 2 have 5: "link (navlink ?r2) = Some ''some/path''" by simp
  show ?thesis
    using 3 4 5 title_rows_parse title_row_1 title_row_2 title_row_3 by blast
qed


section \<open>The level of a row\<close>

lemma level_row_1:
  "re_match ROW_PATTERN ''| 1 | a | [T]() |'' = Some [''| 1 | a | [T]() |'', ''1'', ''a'', ''T'', []]"
  by code_simp

lemma level_row_01:
  "re_match ROW_PATTERN ''| 01 | a | [T]() |'' =
     Some [''| 01 | a | [T]() |'', ''01'', ''a'', ''T'', []]"
  by code_simp

text \<open>
  Claim C6 as stated fails: the level texts \<open>1\<close> and \<open>01\<close> differ, and the two lines
  give the same row, because the level of a row is the integer that the digits denote.
\<close>

theorem line_to_row_not_injective:
  "re_match ROW_PATTERN ''| 1 | a | [T]() |'' = Some [''| 1 | a | [T]() |'', ''1'', ''a'', ''T'', []]
   \<and> re_match ROW_PATTERN ''| 01 | a | [T]() |''
       = Some [''| 01 | a | [T]() |'', ''01'', ''a'', ''T'', []]
   \<and> ''1'' \<noteq> ''01''
   \<and> line_to_row ''| 1 | a | [T]() |''
       = Inr \<lparr>level = 1, path = ''a'', navlink = \<lparr>title = ''T'', link = None\<rparr>\<rparr>
   \<and> line_to_row ''| 1 | a | [T]() |'' = line_to_row ''| 01 | a | [T]() |''"
  using level_row_1 level_row_01
  by (simp add: line_to_row_Some max_str_digits_def int_of_digits_def digit_value_def code_def)

text \<open>
  Claim C6, amended.  Two lines that the row pattern matches and that parse to rows give
  different rows whenever \<^verbatim>\<open>int\<close> reads different integers from their level texts, or
  their path, title or link texts differ.
\<close>

theorem line_to_row_injective:
  assumes "re_match ROW_PATTERN l1 = Some m1" and "re_match ROW_PATTERN l2 = Some m2"
    and "line_to_row l1 = Inr r1" and "line_to_row l2 = Inr r2"
    and "py_int (m1 ! 1) \<noteq> py_int (m2 ! 1)
       \<or> m1 ! 2 \<noteq> m2 ! 2 \<or> m1 ! 3 \<noteq> m2 ! 3 \<or> m1 ! 4 \<noteq> m2 ! 4"
  shows "r1 \<noteq> r2"
proof
  assume eq: "r1 = r2"
  from re_match_ROW_groups [OF assms(1)] re_match_ROW_groups [OF assms(2)]
  have d: "m1 ! 1 \<noteq> []" "list_all is_digit (m1 ! 1)" "m2 ! 1 \<noteq> []" "list_all is_digit (m2 ! 1)"
    by auto
  have r: "r1 = row_of m1" "length (m1 ! 1) \<le> max_str_digits"
    "r2 = row_of m2" "length (m2 ! 1) \<le> max_str_digits"
    using assms(3,4) unfolding line_to_row_match [OF assms(1)] line_to_row_match [OF assms(2)]
    by (simp_all split: if_splits)
  have i: "py_int (m1 ! 1) = Inr (int_of_digits (m1 ! 1))"
    "py_int (m2 ! 1) = Inr (int_of_digits (m2 ! 1))"
    using r(2,4) py_int_digits [OF d(1,2)] py_int_digits [OF d(3,4)] by simp_all
  from eq r(1,3) have "int_of_digits (m1 ! 1) = int_of_digits (m2 ! 1)" "m1 ! 2 = m2 ! 2"
    "m1 ! 3 = m2 ! 3" "m1 ! 4 = m2 ! 4"
    by (auto simp: row_of_def split: if_splits)
  then show False using assms(5) i by simp
qed

lemma level_row_2:
  "re_match ROW_PATTERN ''| 2 | a | [T]() |'' = Some [''| 2 | a | [T]() |'', ''2'', ''a'', ''T'', []]"
  by code_simp

lemma level_rows_parse:
  "line_to_row ''| 1 | a | [T]() |''
     = Inr \<lparr>level = 1, path = ''a'', navlink = \<lparr>title = ''T'', link = None\<rparr>\<rparr>"
  "line_to_row ''| 2 | a | [T]() |''
     = Inr \<lparr>level = 2, path = ''a'', navlink = \<lparr>title = ''T'', link = None\<rparr>\<rparr>"
  by (simp_all add: line_to_row_Some [OF level_row_1] line_to_row_Some [OF level_row_2]
      max_str_digits_def int_of_digits_def digit_value_def code_def)

lemma py_int_1_2: "py_int ''1'' = Inr 1" "py_int ''2'' = Inr 2"
  by (simp_all add: py_int_def max_str_digits_def is_digit_def int_of_digits_def
      digit_value_def code_def)

theorem line_to_row_injective_witness:
  "re_match ROW_PATTERN ''| 1 | a | [T]() |'' = Some [''| 1 | a | [T]() |'', ''1'', ''a'', ''T'', []]
   \<and> re_match ROW_PATTERN ''| 2 | a | [T]() |'' = Some [''| 2 | a | [T]() |'', ''2'', ''a'', ''T'', []]
   \<and> py_int ''1'' \<noteq> py_int ''2''
   \<and> line_to_row ''| 1 | a | [T]() |''
       = Inr \<lparr>level = 1, path = ''a'', navlink = \<lparr>title = ''T'', link = None\<rparr>\<rparr>
   \<and> line_to_row ''| 2 | a | [T]() |''
       = Inr \<lparr>level = 2, path = ''a'', navlink = \<lparr>title = ''T'', link = None\<rparr>\<rparr>
   \<and> \<lparr>level = 1, path = ''a'', navlink = \<lparr>title = ''T'', link = None\<rparr>\<rparr>
       \<noteq> \<lparr>level = 2, path = ''a'', navlink = \<lparr>title = ''T'', link = None\<rparr>\<rparr>"
proof -
  have h: "py_int ([''| 1 | a | [T]() |'', ''1'', ''a'', ''T'', []] ! 1)
        \<noteq> py_int ([''| 2 | a | [T]() |'', ''2'', ''a'', ''T'', []] ! 1)
      \<or> [''| 1 | a | [T]() |'', ''1'', ''a'', ''T'', []] ! 2
        \<noteq> [''| 2 | a | [T]() |'', ''2'', ''a'', ''T'', []] ! 2
      \<or> [''| 1 | a | [T]() |'', ''1'', ''a'', ''T'', []] ! 3
        \<noteq> [''| 2 | a | [T]() |'', ''2'', ''a'', ''T'', []] ! 3
      \<or> [''| 1 | a | [T]() |'', ''1'', ''a'', ''T'', []] ! 4
        \<noteq> [''| 2 | a | [T]() |'', ''2'', ''a'', ''T'', []] ! 4"
    by (simp add: py_int_1_2)
  have "py_int ''1'' \<noteq> py_int ''2''" by (simp add: py_int_1_2)
  then show ?thesis
    using line_to_row_injective [OF level_row_1 level_row_2 level_rows_parse h]
      level_row_1 level_row_2 level_rows_parse
    by blast
qed


section \<open>The scanner after the title\<close>

lemma skip_blanks_append: "list_all is_space v \<Longrightarrow> skip_blanks (v @ s) = skip_blanks s"
  by (simp add: skip_blanks_def list_all_iff dropWhile_append2)

lemma skip_blanks_Cons: "\<not> is_space c \<Longrightarrow> skip_blanks (c # s) = c # s"
  by (simp add: skip_blanks_def)

lemma skip_blanks_char: "list_all is_space v \<Longrightarrow> \<not> is_space c \<Longrightarrow> skip_blanks (v @ c # s) = c # s"
  by (simp add: skip_blanks_append skip_blanks_Cons)

lemma skip_blanks_split: "skip_blanks s = c # t \<Longrightarrow> s = takeWhile is_space s @ c # t"
  unfolding skip_blanks_def by (metis takeWhile_dropWhile_id)

lemma expect_Some: "expect c s = Some t \<longleftrightarrow> s = c # t"
  by (auto simp: expect_def split: list.splits)

lemma expect_Cons [simp]: "expect c (x # s) = (if x = c then Some s else None)"
  by (simp add: expect_def)

lemma run_scan:
  assumes "list_all P a" "list_all is_space v" "\<not> P c" "\<not> is_space c" "\<And>x. P x \<Longrightarrow> \<not> is_space x"
  shows "takeWhile P (skip_blanks (a @ v @ c # r)) = a"
    and "skip_blanks (dropWhile P (skip_blanks (a @ v @ c # r))) = c # r"
proof -
  have "takeWhile P (skip_blanks (a @ v @ c # r)) = a
      \<and> skip_blanks (dropWhile P (skip_blanks (a @ v @ c # r))) = c # r"
  proof (cases a)
    case Nil
    then show ?thesis using assms(2,3,4) by (simp add: skip_blanks_char skip_blanks_Cons)
  next
    case (Cons x xs)
    then have "\<not> is_space x" using assms(1,5) by simp
    then have s: "skip_blanks (a @ v @ c # r) = a @ v @ c # r"
      using Cons by (simp add: skip_blanks_Cons)
    have n: "\<not> P (hd (v @ c # r))" "v @ c # r \<noteq> []"
      using assms(2,3,5) by (cases v) auto
    have t: "takeWhile P (a @ v @ c # r) = a" "dropWhile P (a @ v @ c # r) = v @ c # r"
      using assms(1) n
      by (cases "v @ c # r"; simp add: list_all_iff takeWhile_append2 dropWhile_append2)+
    show ?thesis using assms(2,4) by (simp add: s t skip_blanks_char)
  qed
  then show "takeWhile P (skip_blanks (a @ v @ c # r)) = a"
    and "skip_blanks (dropWhile P (skip_blanks (a @ v @ c # r))) = c # r"
    by simp_all
qed

lemma link_char_simps [simp]:
  "\<not> in_cset LINK_CLASS CHR '')''" "\<not> in_cset LINK_CLASS CHR '']''"
  "\<not> in_cset LINK_CLASS CHR ''(''" "\<not> in_cset LINK_CLASS CHR ''|''"
  by simp_all

lemma tail_after_text:
  assumes "list_all is_space v1" "list_all is_space v2" "list_all is_space v3"
    "list_all is_space v4" "list_all (in_cset LINK_CLASS) lk"
  shows "tail_after (tail_text v1 v2 lk v3 v4 @ u) = Some (lk, u)"
proof -
  let ?r = "v4 @ CHR ''|'' # u"
  have 1: "skip_blanks (tail_text v1 v2 lk v3 v4 @ u) = CHR ''('' # v2 @ lk @ v3 @ CHR '')'' # ?r"
    using assms(1) by (simp add: tail_text_def skip_blanks_char)
  have 2: "skip_blanks (v2 @ lk @ v3 @ CHR '')'' # ?r) = skip_blanks (lk @ v3 @ CHR '')'' # ?r)"
    using assms(2) by (simp add: skip_blanks_append)
  have 3: "takeWhile (in_cset LINK_CLASS) (skip_blanks (lk @ v3 @ CHR '')'' # ?r)) = lk"
    "skip_blanks (dropWhile (in_cset LINK_CLASS) (skip_blanks (lk @ v3 @ CHR '')'' # ?r))) = CHR '')'' # ?r"
    using run_scan [of "in_cset LINK_CLASS" lk v3 "CHR '')''" ?r] assms(3,5) link_char_not_space
    by auto
  have 4: "skip_blanks ?r = CHR ''|'' # u" using assms(4) by (simp add: skip_blanks_char)
  show ?thesis unfolding tail_after_def 1 by (simp add: 2 3 4 del: in_cset.simps)
qed

lemma tail_after_shape:
  assumes "tail_after s = Some (lk, u)"
  shows "\<exists>v1 v2 v3 v4. s = tail_text v1 v2 lk v3 v4 @ u \<and> list_all is_space v1
     \<and> list_all is_space v2 \<and> list_all is_space v3 \<and> list_all is_space v4
     \<and> list_all (in_cset LINK_CLASS) lk"
proof -
  from assms obtain s1 s3 where
    a: "skip_blanks s = CHR ''('' # s1"
    and b: "skip_blanks (dropWhile (in_cset LINK_CLASS) (skip_blanks s1)) = CHR '')'' # s3"
    and c: "skip_blanks s3 = CHR ''|'' # u"
    and lk: "lk = takeWhile (in_cset LINK_CLASS) (skip_blanks s1)"
    unfolding tail_after_def by (auto simp: expect_Some Let_def split: option.splits)
  let ?s2 = "skip_blanks s1"
  let ?d = "dropWhile (in_cset LINK_CLASS) ?s2"
  have "s = takeWhile is_space s @ CHR ''('' # s1" using a by (rule skip_blanks_split)
  moreover have "s1 = takeWhile is_space s1 @ ?s2" by (simp add: skip_blanks_def)
  moreover have "?s2 = lk @ ?d" by (simp add: lk)
  moreover have "?d = takeWhile is_space ?d @ CHR '')'' # s3" using b by (rule skip_blanks_split)
  moreover have "s3 = takeWhile is_space s3 @ CHR ''|'' # u" using c by (rule skip_blanks_split)
  ultimately have "s = tail_text (takeWhile is_space s) (takeWhile is_space s1) lk
      (takeWhile is_space ?d) (takeWhile is_space s3) @ u"
    unfolding tail_text_def by (metis append.assoc append_Cons append_Nil)
  moreover have "list_all (in_cset LINK_CLASS) lk"
    unfolding lk list_all_iff by (blast dest: set_takeWhileD)
  moreover have "\<And>z. list_all is_space (takeWhile is_space z)"
    unfolding list_all_iff by (blast dest: set_takeWhileD)
  ultimately show ?thesis by blast
qed

lemma row_tail_text:
  assumes "list_all is_space v0" "list_all is_space v1" "list_all is_space v2"
    "list_all is_space v3" "list_all is_space v4" "list_all (in_cset LINK_CLASS) lk"
  shows "row_tail (v0 @ CHR '']'' # tail_text v1 v2 lk v3 v4 @ u) = Some (lk, u)"
  using assms by (simp add: row_tail_def skip_blanks_char tail_after_text del: in_cset.simps)

lemma row_tail_shape:
  assumes "row_tail s = Some (lk, u)"
  shows "\<exists>v0 v1 v2 v3 v4. s = v0 @ CHR '']'' # tail_text v1 v2 lk v3 v4 @ u
     \<and> list_all is_space v0 \<and> list_all is_space v1
     \<and> list_all is_space v2 \<and> list_all is_space v3 \<and> list_all is_space v4
     \<and> list_all (in_cset LINK_CLASS) lk"
proof -
  from assms obtain s1 where a: "skip_blanks s = CHR '']'' # s1" and b: "tail_after s1 = Some (lk, u)"
    unfolding row_tail_def by (auto simp: expect_Some split: option.splits)
  have "s = takeWhile is_space s @ CHR '']'' # s1" using a by (rule skip_blanks_split)
  moreover have "list_all is_space (takeWhile is_space s)"
    unfolding list_all_iff by (blast dest: set_takeWhileD)
  ultimately show ?thesis using tail_after_shape [OF b] by metis
qed

lemma sem_Seq_ChrI: "in_cset c x \<Longrightarrow> (v, h) \<in> sem b \<Longrightarrow> (x # v, h) \<in> sem (Seq (Chr c) b)"
  by (simp del: in_cset.simps) (metis append_Cons append_Nil)

lemma sem_Seq_StarI:
  "list_all (in_cset c) u \<Longrightarrow> (v, h) \<in> sem b \<Longrightarrow> (u @ v, h) \<in> sem (Seq (Star c) b)"
  by (auto simp del: in_cset.simps)

lemma sem_Seq_Group_StarI:
  "list_all (in_cset c) u \<Longrightarrow> (v, h) \<in> sem b \<Longrightarrow> (u @ v, u # h) \<in> sem (Seq (Group (Star c)) b)"
  by (auto simp del: in_cset.simps)

lemma sem_Seq_Group_PlusI:
  "u \<noteq> [] \<Longrightarrow> list_all (in_cset c) u \<Longrightarrow> (v, h) \<in> sem b \<Longrightarrow>
   (u @ v, u # h) \<in> sem (Seq (Group (Plus c)) b)"
  by (auto simp del: in_cset.simps)

lemma sem_Seq_Group_LazyPlusI:
  "u \<noteq> [] \<Longrightarrow> list_all (in_cset c) u \<Longrightarrow> (v, h) \<in> sem b \<Longrightarrow>
   (u @ v, u # h) \<in> sem (Seq (Group (LazyPlus c)) b)"
  by (auto simp del: in_cset.simps)

lemma sem_EpsI: "([], []) \<in> sem Eps"
  by simp

lemmas sem_intros = sem_Seq_ChrI sem_Seq_StarI sem_Seq_Group_StarI sem_Seq_Group_PlusI
  sem_Seq_Group_LazyPlusI sem_EpsI

lemma sem_ROW_TAIL_I:
  assumes "list_all is_space v0" "list_all is_space v1" "list_all is_space v2"
    "list_all is_space v3" "list_all is_space v4" "list_all (in_cset LINK_CLASS) lk"
  shows "(v0 @ CHR '']'' # tail_text v1 v2 lk v3 v4, [lk]) \<in> sem ROW_TAIL"
  unfolding ROW_TAIL_def pattern_defs tail_text_def append.simps compile.simps list.map
  using assms unfolding in_cset_Space_eq [symmetric]
  by (intro sem_intros) simp_all

lemma sem_ROW_TAIL_D:
  assumes "(w, g) \<in> sem ROW_TAIL"
  shows "\<exists>v0 v1 v2 lk v3 v4. w = v0 @ CHR '']'' # tail_text v1 v2 lk v3 v4
     \<and> g = [lk] \<and> list_all is_space v0 \<and> list_all is_space v1
     \<and> list_all is_space v2 \<and> list_all is_space v3 \<and> list_all is_space v4
     \<and> list_all (in_cset LINK_CLASS) lk"
  using assms unfolding ROW_TAIL_def pattern_defs tail_text_def
  by (clarsimp simp: in_cset_Space_eq simp del: in_cset.simps(8)) blast

lemma run_ROW_TAIL_iff: "(g, u) \<in> set (run ROW_TAIL s) \<longleftrightarrow> (\<exists>lk. g = [lk] \<and> row_tail s = Some (lk, u))"
proof
  assume "(g, u) \<in> set (run ROW_TAIL s)"
  then obtain w where "s = w @ u" "(w, g) \<in> sem ROW_TAIL" unfolding run_sem by blast
  then show "\<exists>lk. g = [lk] \<and> row_tail s = Some (lk, u)"
    using row_tail_text by (auto dest!: sem_ROW_TAIL_D)
next
  assume "\<exists>lk. g = [lk] \<and> row_tail s = Some (lk, u)"
  then obtain lk where lk: "g = [lk]" "row_tail s = Some (lk, u)" by blast
  from row_tail_shape [OF lk(2)] obtain v0 v1 v2 v3 v4 where
    v: "s = v0 @ CHR '']'' # tail_text v1 v2 lk v3 v4 @ u" "list_all is_space v0"
      "list_all is_space v1" "list_all is_space v2" "list_all is_space v3"
      "list_all is_space v4" "list_all (in_cset LINK_CLASS) lk"
    by blast
  then have "(v0 @ CHR '']'' # tail_text v1 v2 lk v3 v4, [lk]) \<in> sem ROW_TAIL"
    by (intro sem_ROW_TAIL_I)
  moreover have "s = (v0 @ CHR '']'' # tail_text v1 v2 lk v3 v4) @ u" using v(1) by simp
  ultimately show "(g, u) \<in> set (run ROW_TAIL s)" unfolding run_sem lk(1) by blast
qed

lemma first_None [simp]: "first xs = None \<longleftrightarrow> xs = []"
  by (simp add: first_def split: list.splits)

lemma first_Some_mem: "first xs = Some x \<Longrightarrow> x \<in> set xs"
  by (auto simp: first_def split: list.splits)

lemma first_run_ROW_TAIL: "first (run ROW_TAIL s) = map_option (\<lambda>(lk, u). ([lk], u)) (row_tail s)"
proof (cases "first (run ROW_TAIL s)")
  case None
  then have "run ROW_TAIL s = []" by simp
  then have "row_tail s = None"
    using run_ROW_TAIL_iff [of _ _ s] by (cases "row_tail s") auto
  then show ?thesis using None by simp
next
  case (Some r)
  obtain g u where r: "r = (g, u)" by (cases r)
  from first_Some_mem [OF Some] show ?thesis
    unfolding r run_ROW_TAIL_iff using Some r by auto
qed



section \<open>The first match of the row pattern\<close>

lemma first_append: "first (xs @ ys) = (case first xs of Some r \<Rightarrow> Some r | None \<Rightarrow> first ys)"
  by (cases xs) (simp_all add: first_def)

lemma first_map: "first (map f xs) = map_option f (first xs)"
  by (cases xs) (simp_all add: first_def)

lemma first_Nil [simp]: "first [] = None"
  by (simp add: first_def)

lemma run_Seq_Group_LazyPlus:
  "run (Seq (Group (LazyPlus c)) r) s = (case s of [] \<Rightarrow> []
     | x # xs \<Rightarrow> if in_cset c x
         then concat (map (\<lambda>t. map (\<lambda>(h, u). (consumed s t # h, u)) (run r t)) (lazy c xs))
         else [])"
  by (cases s) (simp_all add: comp_def case_prod_beta)

lemma first_lazy_titles:
  "first (concat (map (\<lambda>t. map (\<lambda>(h, u). (consumed (acc @ z) t # h, u)) (run ROW_TAIL t))
      (lazy NAVLINK_TITLE_CLASS z))) = title_from acc z"
proof (induction z arbitrary: acc)
  case Nil
  show ?case
    by (subst title_from.simps)
       (simp add: first_map first_run_ROW_TAIL consumed_def split: option.splits)
next
  case (Cons y z)
  have c: "consumed (acc @ y # z) (y # z) = acc" by (simp add: consumed_def)
  have "first (map (\<lambda>(h, u). (consumed (acc @ y # z) (y # z) # h, u)) (run ROW_TAIL (y # z)))
      = map_option (\<lambda>(lk, u). ([acc, lk], u)) (row_tail (y # z))"
    by (cases "row_tail (y # z)") (auto simp: first_map first_run_ROW_TAIL c)
  moreover have "first (concat (map (\<lambda>t. map (\<lambda>(h, u). (consumed (acc @ y # z) t # h, u))
      (run ROW_TAIL t)) (lazy NAVLINK_TITLE_CLASS z))) = title_from (acc @ [y]) z"
    using Cons.IH [of "acc @ [y]"] by simp
  ultimately show ?case
    by (subst title_from.simps)
       (simp add: first_append split: option.splits del: title_from.simps in_cset.simps)
qed

lemma first_run_TITLE_ON: "first (run TITLE_ON s) = title_at s"
proof (cases s)
  case Nil
  then show ?thesis by (simp add: TITLE_ON_def title_at_def NAVLINK_TITLE_REGEX_def)
next
  case (Cons x xs)
  show ?thesis
    unfolding TITLE_ON_def NAVLINK_TITLE_REGEX_def run_Seq_Group_LazyPlus Cons title_at_def
    using first_lazy_titles [of "[x]" xs]
    by (simp del: title_from.simps in_cset.simps run.simps)
qed

lemma first_run_blanks_title: "first (run (Seq (Star Space) TITLE_ON) s) = blanks_title s"
proof (induction s)
  case Nil
  then show ?case using first_run_TITLE_ON [of "[]"] by (simp add: run_Seq_Star title_at_def)
next
  case (Cons x xs)
  then show ?case
    using first_run_TITLE_ON [of "x # xs"]
    by (simp add: run_Seq_Star first_append del: run.simps split: option.splits)
qed

lemma first_run_blank:
  "rejects Space r \<Longrightarrow> first (run (Seq (Star Space) r) s) = first (run r (skip_blanks s))"
  by (simp add: run_Seq_Star_skip skip_blanks_def in_cset_Space_eq del: run.simps)

lemma first_run_Chr:
  "first (run (Seq (Chr (Lit c)) r) s) =
     (case expect c s of None \<Rightarrow> None | Some t \<Rightarrow> first (run r t))"
  by (cases s) (simp_all add: expect_def)

lemma first_run_Group_Plus:
  "rejects c r \<Longrightarrow> first (run (Seq (Group (Plus c)) r) s) =
     (if takeWhile (in_cset c) s = [] then None
      else map_option (\<lambda>(h, u). (takeWhile (in_cset c) s # h, u))
             (first (run r (dropWhile (in_cset c) s))))"
  by (simp add: run_Seq_Group_Plus_skip first_map del: run.simps)

lemma ROW_PATTERN_unfold:
  "ROW_PATTERN =
     Seq (Star Space) (Seq (Chr (Lit CHR ''|'')) (Seq (Star Space) (Seq (Group (Plus Digit))
    (Seq (Star Space) (Seq (Chr (Lit CHR ''|'')) (Seq (Star Space) (Seq (Group (Plus PATH_CLASS))
    (Seq (Star Space) (Seq (Chr (Lit CHR ''|'')) (Seq (Star Space) (Seq (Chr (Lit CHR ''[''))
    (Seq (Star Space) TITLE_ON))))))))))))"
  by (simp add: pattern_defs TITLE_ON_def ROW_TAIL_def)

lemma rejects_Space_bracket: "rejects Space (Seq (Chr (Lit CHR ''['')) r)"
  by (rule rejects_Chr) auto

lemma rejects_Digit_blanks_bar:
  "rejects Digit (Seq (Star Space) (Seq (Chr (Lit CHR ''|'')) r))"
  by (intro rejects_Star rejects_Chr) (auto dest: space_not_digit)

lemma rejects_Space_path: "rejects Space (Seq (Group (Plus PATH_CLASS)) r)"
  by (rule rejects_Group_Plus) (auto dest: space_not_word)

lemma rejects_path_blanks_bar:
  "rejects PATH_CLASS (Seq (Star Space) (Seq (Chr (Lit CHR ''|'')) r))"
  by (intro rejects_Star rejects_Chr) (auto dest: space_not_word)

lemma in_cset_Digit_eq: "in_cset Digit = is_digit"
  by (rule ext) simp

lemma first_run_ROW: "first (run ROW_PATTERN s) = row_first s"
  unfolding ROW_PATTERN_unfold
  apply (simp add: first_run_blank first_run_Chr first_run_Group_Plus first_run_blanks_title
      rejects_Space_bar rejects_Space_bracket rejects_Digit_blanks_bar rejects_Space_digits
      rejects_Space_path rejects_path_blanks_bar row_first_def row_head_def Let_def
      in_cset_Digit_eq option.map_comp comp_def case_prod_beta
      del: run.simps in_cset.simps split: option.splits)
  apply (simp add: split_def)
  done

lemma re_match_row_first:
  "re_match ROW_PATTERN s = map_option (\<lambda>(g, t). consumed s t # g) (row_first s)"
  unfolding first_run_ROW [symmetric]
  by (simp add: re_match_def first_def split: list.splits)



section \<open>Texts of rows\<close>

lemma blanks_takeWhile: "list_all is_space (takeWhile is_space z)"
  unfolding list_all_iff by (blast dest: set_takeWhileD)

lemma path_char_not_space: "in_cset PATH_CLASS c \<Longrightarrow> \<not> is_space c"
  using space_not_word by auto

lemma row_head_text:
  assumes "list_all is_space w0" "list_all is_space w1" "list_all is_space w2"
    "list_all is_space w3" "list_all is_space w4" "list_all is_space w5"
    "d \<noteq> []" "list_all is_digit d" "p \<noteq> []" "list_all (in_cset PATH_CLASS) p"
  shows "row_head (head_text w0 w1 d w2 w3 p w4 w5 @ s) = Some (d, p, s)"
proof -
  let ?r5 = "w5 @ CHR ''['' # s"
  let ?r3 = "w3 @ p @ w4 @ CHR ''|'' # ?r5"
  let ?r1 = "w1 @ d @ w2 @ CHR ''|'' # ?r3"
  have 1: "skip_blanks (head_text w0 w1 d w2 w3 p w4 w5 @ s) = CHR ''|'' # ?r1"
    using assms(1) by (simp add: head_text_def skip_blanks_char)
  have 2: "skip_blanks ?r1 = skip_blanks (d @ w2 @ CHR ''|'' # ?r3)"
    using assms(2) by (simp add: skip_blanks_append)
  have 3: "takeWhile is_digit (skip_blanks (d @ w2 @ CHR ''|'' # ?r3)) = d"
    "skip_blanks (dropWhile is_digit (skip_blanks (d @ w2 @ CHR ''|'' # ?r3))) = CHR ''|'' # ?r3"
    using run_scan [of is_digit d w2 "CHR ''|''" ?r3] assms(3,8) space_not_digit by auto
  have 4: "skip_blanks ?r3 = skip_blanks (p @ w4 @ CHR ''|'' # ?r5)"
    using assms(4) by (simp add: skip_blanks_append)
  have 5: "takeWhile (in_cset PATH_CLASS) (skip_blanks (p @ w4 @ CHR ''|'' # ?r5)) = p"
    "skip_blanks (dropWhile (in_cset PATH_CLASS) (skip_blanks (p @ w4 @ CHR ''|'' # ?r5)))
       = CHR ''|'' # ?r5"
    using run_scan [of "in_cset PATH_CLASS" p w4 "CHR ''|''" ?r5] assms(5,10)
      path_char_not_space by auto
  have 6: "skip_blanks ?r5 = CHR ''['' # s" using assms(6) by (simp add: skip_blanks_char)
  show ?thesis
    unfolding row_head_def 1 using assms(7,9)
    by (simp add: 2 3 4 5 6 del: in_cset.simps)
qed

lemma skip_blanks_splitE:
  assumes "skip_blanks s = c # t"
  obtains w where "s = w @ c # t" "list_all is_space w"
  using skip_blanks_split [OF assms] blanks_takeWhile by blast

lemma skip_blanks_run_splitE:
  assumes "skip_blanks (dropWhile P (skip_blanks s)) = c # t"
  obtains w w' where "s = w @ takeWhile P (skip_blanks s) @ w' @ c # t"
    "list_all is_space w" "list_all is_space w'"
proof -
  define D where "D = dropWhile P (skip_blanks s)"
  from assms obtain w' where w': "D = w' @ c # t" "list_all is_space w'"
    unfolding D_def by (rule skip_blanks_splitE)
  have "s = takeWhile is_space s @ skip_blanks s" by (simp add: skip_blanks_def)
  also have "skip_blanks s = takeWhile P (skip_blanks s) @ D" by (simp add: D_def)
  finally have "s = takeWhile is_space s @ takeWhile P (skip_blanks s) @ w' @ c # t"
    unfolding w' .
  then show thesis using that blanks_takeWhile w'(2) by blast
qed

lemma row_head_shape:
  assumes "row_head s = Some (d, p, t)"
  shows "\<exists>w0 w1 w2 w3 w4 w5. s = head_text w0 w1 d w2 w3 p w4 w5 @ t
     \<and> list_all is_space w0 \<and> list_all is_space w1 \<and> list_all is_space w2
     \<and> list_all is_space w3 \<and> list_all is_space w4 \<and> list_all is_space w5
     \<and> d \<noteq> [] \<and> list_all is_digit d \<and> p \<noteq> [] \<and> list_all (in_cset PATH_CLASS) p"
proof -
  from assms obtain s1 where a: "skip_blanks s = CHR ''|'' # s1"
    unfolding row_head_def by (auto simp: expect_Some split: option.splits)
  from assms a obtain s3 where
    d: "d = takeWhile is_digit (skip_blanks s1)" "d \<noteq> []"
    and b: "skip_blanks (dropWhile is_digit (skip_blanks s1)) = CHR ''|'' # s3"
    unfolding row_head_def
    by (auto simp: expect_Some Let_def simp del: in_cset.simps split: option.splits if_splits)
  from assms a b d obtain s5 where
    p: "p = takeWhile (in_cset PATH_CLASS) (skip_blanks s3)" "p \<noteq> []"
    and c: "skip_blanks (dropWhile (in_cset PATH_CLASS) (skip_blanks s3)) = CHR ''|'' # s5"
    and e: "skip_blanks s5 = CHR ''['' # t"
    unfolding row_head_def
    by (auto simp: expect_Some Let_def simp del: in_cset.simps split: option.splits if_splits)
  from a obtain w0 where w0: "s = w0 @ CHR ''|'' # s1" "list_all is_space w0"
    by (rule skip_blanks_splitE)
  from b obtain w1 w2 where w1: "s1 = w1 @ d @ w2 @ CHR ''|'' # s3"
    "list_all is_space w1" "list_all is_space w2"
    unfolding d(1) by (rule skip_blanks_run_splitE)
  from c obtain w3 w4 where w3: "s3 = w3 @ p @ w4 @ CHR ''|'' # s5"
    "list_all is_space w3" "list_all is_space w4"
    unfolding p(1) by (rule skip_blanks_run_splitE)
  from e obtain w5 where w5: "s5 = w5 @ CHR ''['' # t" "list_all is_space w5"
    by (rule skip_blanks_splitE)
  have "s = head_text w0 w1 d w2 w3 p w4 w5 @ t"
    unfolding head_text_def w0(1) w1(1) w3(1) w5(1) by simp
  moreover have "list_all is_digit d" "list_all (in_cset PATH_CLASS) p"
    unfolding d p list_all_iff by (blast dest: set_takeWhileD)+
  ultimately show ?thesis using w0(2) w1(2,3) w3(2,3) w5(2) d(2) p(2) by blast
qed

lemma row_head_extend:
  assumes "row_head s = Some (d, p, t)"
  shows "row_head (s @ u) = Some (d, p, t @ u)"
proof -
  from row_head_shape [OF assms] obtain w0 w1 w2 w3 w4 w5 where
    s: "s = head_text w0 w1 d w2 w3 p w4 w5 @ t"
    and w: "list_all is_space w0" "list_all is_space w1" "list_all is_space w2"
      "list_all is_space w3" "list_all is_space w4" "list_all is_space w5"
      "d \<noteq> []" "list_all is_digit d" "p \<noteq> []" "list_all (in_cset PATH_CLASS) p"
    by blast
  show ?thesis using row_head_text [OF w, of "t @ u"] by (simp add: s)
qed

lemma row_tail_extend:
  assumes "row_tail s = Some (lk, t)"
  shows "row_tail (s @ u) = Some (lk, t @ u)"
proof -
  from row_tail_shape [OF assms] obtain v0 v1 v2 v3 v4 where
    s: "s = v0 @ CHR '']'' # tail_text v1 v2 lk v3 v4 @ t"
    and v: "list_all is_space v0" "list_all is_space v1" "list_all is_space v2"
      "list_all is_space v3" "list_all is_space v4" "list_all (in_cset LINK_CLASS) lk"
    by blast
  show ?thesis using row_tail_text [OF v, of "t @ u"] by (simp add: s)
qed

lemma row_tail_blanks: "list_all is_space v \<Longrightarrow> row_tail (v @ s) = row_tail s"
  by (simp add: row_tail_def skip_blanks_append)

lemma row_tail_bracket: "row_tail (CHR '']'' # s) = tail_after s"
  by (simp add: row_tail_def skip_blanks_Cons)

section \<open>What follows a closing bracket\<close>

lemma tail_text_chars:
  assumes "list_all is_space v1" "list_all is_space v2" "list_all is_space v3"
    "list_all is_space v4" "list_all (in_cset LINK_CLASS) lk"
  shows "CHR '']'' \<notin> set (tail_text v1 v2 lk v3 v4)"
    and "tail_text v1 v2 lk v3 v4 \<noteq> []" and "last (tail_text v1 v2 lk v3 v4) = CHR ''|''"
proof -
  have "\<And>x. x \<in> set lk \<Longrightarrow> x \<noteq> CHR '']''"
    using assms(5) unfolding list_all_iff by fastforce
  moreover have "\<And>v x. list_all is_space v \<Longrightarrow> x \<in> set v \<Longrightarrow> x \<noteq> CHR '']''"
    unfolding list_all_iff by fastforce
  ultimately show "CHR '']'' \<notin> set (tail_text v1 v2 lk v3 v4)"
    using assms(1-4) unfolding tail_text_def by fastforce
  show "tail_text v1 v2 lk v3 v4 \<noteq> []" by (simp add: tail_text_def)
  have "tail_text v1 v2 lk v3 v4 = (v1 @ CHR ''('' # v2 @ lk @ v3 @ CHR '')'' # v4) @ [CHR ''|'']"
    by (simp add: tail_text_def)
  then show "last (tail_text v1 v2 lk v3 v4) = CHR ''|''" by (simp only: last_snoc)
qed

lemma first_other:
  assumes "\<not> list_all P e"
  obtains ws c e' where "e = ws @ c # e'" "list_all P ws" "\<not> P c"
proof -
  have "dropWhile P e \<noteq> []" using assms by (simp add: list_all_iff)
  then obtain c e' where d: "dropWhile P e = c # e'" by (cases "dropWhile P e") auto
  then have "\<not> P c" using hd_dropWhile [of P e] by simp
  moreover have "e = takeWhile P e @ c # e'" using d by (metis takeWhile_dropWhile_id)
  moreover have "list_all P (takeWhile P e)" unfolding list_all_iff by (blast dest: set_takeWhileD)
  ultimately show thesis using that by blast
qed

lemma append_eq_before:
  assumes "w @ u = a @ c # b" "c \<notin> set w"
  shows "\<exists>a'. a = w @ a' \<and> u = a' @ c # b"
proof -
  from assms(1) obtain us where "(w = a @ us \<and> us @ u = c # b) \<or> (w @ us = a \<and> u = us @ c # b)"
    unfolding append_eq_append_conv2 by blast
  then show ?thesis
  proof
    assume h: "w = a @ us \<and> us @ u = c # b"
    show ?thesis
    proof (cases us)
      case Nil
      then show ?thesis using h by simp
    next
      case (Cons x xs)
      then have "c \<in> set w" using h by simp
      then show ?thesis using assms(2) by simp
    qed
  next
    assume "w @ us = a \<and> u = us @ c # b"
    then show ?thesis by blast
  qed
qed

lemma append_eq_before_blanks:
  assumes "w @ u = e @ v" "list_all is_space v" "w \<noteq> []" "\<not> is_space (last w)"
  shows "\<exists>e'. e = w @ e'"
proof -
  from assms(1) obtain us where "(w = e @ us \<and> us @ u = v) \<or> (w @ us = e \<and> u = us @ v)"
    unfolding append_eq_append_conv2 by blast
  then show ?thesis
  proof
    assume h: "w = e @ us \<and> us @ u = v"
    show ?thesis
    proof (cases "us = []")
      case True
      then show ?thesis using h by simp
    next
      case False
      then have "last w = last us" "last us \<in> set v" using h by auto
      then show ?thesis using assms(2,4) by (simp add: list_all_iff)
    qed
  next
    assume "w @ us = e \<and> u = us @ v"
    then show ?thesis by blast
  qed
qed

lemma tail_after_cut:
  assumes "tail_after (a @ CHR '']'' # b) = Some (lk, u)"
  shows "\<exists>w a'. a = w @ a' \<and> w \<noteq> [] \<and> last w = CHR ''|''
     \<and> (\<forall>c. tail_after (w @ c) = Some (lk, c))"
proof -
  from tail_after_shape [OF assms] obtain v1 v2 v3 v4 where
    s: "a @ CHR '']'' # b = tail_text v1 v2 lk v3 v4 @ u"
    and v: "list_all is_space v1" "list_all is_space v2" "list_all is_space v3"
      "list_all is_space v4" "list_all (in_cset LINK_CLASS) lk"
    by blast
  let ?w = "tail_text v1 v2 lk v3 v4"
  from append_eq_before [OF s [symmetric] tail_text_chars(1) [OF v]]
  obtain a' where "a = ?w @ a'" by blast
  moreover have "\<forall>c. tail_after (?w @ c) = Some (lk, c)"
    using tail_after_text [OF v] by blast
  ultimately show ?thesis using tail_text_chars(2,3) [OF v] by blast
qed

text \<open>
  A search position that fails before a closing bracket fails whatever blanks precede the
  bracket and whatever follows it.
\<close>

lemma row_tail_None_variant:
  assumes "row_tail (e @ v @ CHR '']'' # r) = None"
    and "list_all is_space v" "list_all is_space v'" "tail_after r \<noteq> None"
  shows "row_tail (e @ v' @ CHR '']'' # r') = None"
proof (rule ccontr)
  assume "row_tail (e @ v' @ CHR '']'' # r') \<noteq> None"
  then obtain lk u where some: "row_tail (e @ v' @ CHR '']'' # r') = Some (lk, u)" by auto
  show False
  proof (cases "list_all is_space e")
    case True
    then have "row_tail (e @ v @ CHR '']'' # r) = tail_after r"
      using assms(2) by (simp add: row_tail_blanks row_tail_bracket)
    then show False using assms(1,4) by simp
  next
    case False
    then obtain ws c e' where e: "e = ws @ c # e'" "list_all is_space ws" "\<not> is_space c"
      by (rule first_other)
    have "skip_blanks (e @ v' @ CHR '']'' # r') = c # e' @ v' @ CHR '']'' # r'"
      unfolding e using e(2,3) by (simp add: skip_blanks_char)
    with some have "expect CHR '']'' (c # e' @ v' @ CHR '']'' # r') \<noteq> None"
      unfolding row_tail_def by (cases "expect CHR '']'' (c # e' @ v' @ CHR '']'' # r')") simp_all
    then have c: "c = CHR '']''" by (simp split: if_splits)
    from some have "tail_after ((e' @ v') @ CHR '']'' # r') = Some (lk, u)"
      unfolding e c using e(2) by (simp add: row_tail_blanks row_tail_bracket)
    from tail_after_cut [OF this] obtain w a' where
      w: "e' @ v' = w @ a'" "w \<noteq> []" "last w = CHR ''|''" "\<forall>c. tail_after (w @ c) = Some (lk, c)"
      by blast
    from append_eq_before_blanks [OF w(1) [symmetric] assms(3) w(2)] w(3)
    obtain e'' where "e' = w @ e''" by auto
    then have "row_tail (e @ v @ CHR '']'' # r) = tail_after (w @ (e'' @ v @ CHR '']'' # r))"
      unfolding e c using e(2) by (simp add: row_tail_blanks row_tail_bracket)
    then show False using w(4) assms(1) by simp
  qed
qed



section \<open>The search for the title\<close>

declare title_from.simps [simp del]

lemma row_tail_Nil [simp]: "row_tail [] = None"
  by (simp add: row_tail_def skip_blanks_def expect_def)

lemma title_from_Nil [simp]: "title_from acc [] = None"
  by (subst title_from.simps) simp

lemma title_from_Cons:
  "title_from acc (y # z) =
     (case row_tail (y # z) of
        Some (lk, u) \<Rightarrow> Some ([acc, lk], u)
      | None \<Rightarrow> if in_cset NAVLINK_TITLE_CLASS y then title_from (acc @ [y]) z else None)"
  by (subst title_from.simps) (simp only: list.case)

lemma title_from_shape:
  assumes "title_from acc z = Some (g, u)"
  shows "\<exists>e z1 lk. z = e @ z1 \<and> list_all (in_cset NAVLINK_TITLE_CLASS) e \<and> g = [acc @ e, lk]
     \<and> row_tail z1 = Some (lk, u)
     \<and> (\<forall>e1 e2. e = e1 @ e2 \<and> e2 \<noteq> [] \<longrightarrow> row_tail (e2 @ z1) = None)"
  using assms
proof (induction z arbitrary: acc)
  case Nil
  then show ?case by simp
next
  case (Cons y z)
  show ?case
  proof (cases "row_tail (y # z)")
    case (Some r)
    obtain lk u' where r: "r = (lk, u')" by (cases r)
    from Cons.prems have "g = [acc, lk]" "u = u'"
      unfolding title_from_Cons Some r by simp_all
    then have "y # z = [] @ (y # z) \<and> list_all (in_cset NAVLINK_TITLE_CLASS) []
        \<and> g = [acc @ [], lk] \<and> row_tail (y # z) = Some (lk, u)
        \<and> (\<forall>e1 e2. [] = e1 @ e2 \<and> e2 \<noteq> [] \<longrightarrow> row_tail (e2 @ y # z) = None)"
      using Some r by simp
    then show ?thesis by (intro exI)
  next
    case None
    from Cons.prems have y: "in_cset NAVLINK_TITLE_CLASS y"
      and t: "title_from (acc @ [y]) z = Some (g, u)"
      unfolding title_from_Cons None by (simp_all split: if_splits)
    from Cons.IH [OF t] obtain e z1 lk where
      e: "z = e @ z1" "list_all (in_cset NAVLINK_TITLE_CLASS) e" "g = [(acc @ [y]) @ e, lk]"
        "row_tail z1 = Some (lk, u)"
        "\<forall>e1 e2. e = e1 @ e2 \<and> e2 \<noteq> [] \<longrightarrow> row_tail (e2 @ z1) = None"
      by (elim exE conjE)
    have "\<forall>e1 e2. y # e = e1 @ e2 \<and> e2 \<noteq> [] \<longrightarrow> row_tail (e2 @ z1) = None"
    proof (intro allI impI)
      fix e1 e2 assume h: "y # e = e1 @ e2 \<and> e2 \<noteq> []"
      show "row_tail (e2 @ z1) = None"
      proof (cases e1)
        case Nil
        then have "e2 @ z1 = y # z" using h e(1) by auto
        then show ?thesis using None by simp
      next
        case (Cons a e1')
        then have "e = e1' @ e2" using h by simp
        then show ?thesis using h e(5) by blast
      qed
    qed
    moreover have "y # z = (y # e) @ z1" "list_all (in_cset NAVLINK_TITLE_CLASS) (y # e)"
      "g = [acc @ y # e, lk]"
      using e(1,2,3) y by simp_all
    ultimately have "y # z = (y # e) @ z1 \<and> list_all (in_cset NAVLINK_TITLE_CLASS) (y # e)
        \<and> g = [acc @ y # e, lk] \<and> row_tail z1 = Some (lk, u)
        \<and> (\<forall>e1 e2. y # e = e1 @ e2 \<and> e2 \<noteq> [] \<longrightarrow> row_tail (e2 @ z1) = None)"
      using e(4) by (intro conjI)
    then show ?thesis by (intro exI)
  qed
qed

lemma title_from_intro:
  assumes "list_all (in_cset NAVLINK_TITLE_CLASS) e" "row_tail z1 = Some (lk, u)"
    and "\<forall>e1 e2. e = e1 @ e2 \<and> e2 \<noteq> [] \<longrightarrow> row_tail (e2 @ z1) = None"
  shows "title_from acc (e @ z1) = Some ([acc @ e, lk], u)"
  using assms
proof (induction e arbitrary: acc)
  case Nil
  then show ?case by (cases z1) (simp_all add: title_from_Cons)
next
  case (Cons y e)
  have "row_tail ((y # e) @ z1) = None" using Cons.prems(3) by blast
  moreover have "title_from (acc @ [y]) (e @ z1) = Some ([(acc @ [y]) @ e, lk], u)"
    using Cons.prems by (intro Cons.IH) (auto simp: Cons_eq_append_conv)
  ultimately show ?case
    using Cons.prems(1) by (simp add: title_from_Cons del: in_cset.simps)
qed

lemma title_from_None_acc: "title_from acc z = None \<Longrightarrow> title_from acc' z = None"
proof (induction z arbitrary: acc acc')
  case Nil
  then show ?case by simp
next
  case (Cons y z)
  from Cons.prems have n: "row_tail (y # z) = None"
    unfolding title_from_Cons by (cases "row_tail (y # z)") auto
  show ?case
  proof (cases "in_cset NAVLINK_TITLE_CLASS y")
    case True
    with Cons.prems n have "title_from (acc @ [y]) z = None"
      unfolding title_from_Cons by simp
    then have "title_from (acc' @ [y]) z = None" by (rule Cons.IH)
    then show ?thesis unfolding title_from_Cons using True n by simp
  next
    case False
    then show ?thesis unfolding title_from_Cons using n by simp
  qed
qed

lemma title_from_skip:
  assumes "\<forall>a1 a2. a = a1 @ a2 \<and> a2 \<noteq> [] \<longrightarrow> row_tail (a2 @ r) = None"
  shows "title_from acc (a @ r) =
     (if list_all (in_cset NAVLINK_TITLE_CLASS) a then title_from (acc @ a) r else None)"
  using assms
proof (induction a arbitrary: acc)
  case Nil
  then show ?case by simp
next
  case (Cons y a)
  have n: "row_tail ((y # a) @ r) = None" using Cons.prems by blast
  have "title_from (acc @ [y]) (a @ r) =
     (if list_all (in_cset NAVLINK_TITLE_CLASS) a then title_from ((acc @ [y]) @ a) r else None)"
    using Cons.prems by (intro Cons.IH) (auto simp: Cons_eq_append_conv)
  then show ?case
    using n by (simp add: title_from_Cons del: in_cset.simps)
qed

lemma title_space: "is_space x \<Longrightarrow> in_cset NAVLINK_TITLE_CLASS x \<longleftrightarrow> x = CHR '' ''"
proof
  assume sp: "is_space x" and "in_cset NAVLINK_TITLE_CLASS x"
  then have "x = CHR '' '' \<or> x \<in> set punctuation"
    using space_not_word [of x] by (auto simp: NAVLINK_TITLE_CLASS_def)
  moreover have "\<And>c. c \<in> set punctuation \<Longrightarrow> 33 \<le> code c \<and> code c \<le> 126"
    unfolding punctuation_def code_def by auto
  moreover have "code x \<le> 32 \<or> 133 \<le> code x"
    using sp unfolding is_space_def by auto
  ultimately show "x = CHR '' ''" by fastforce
next
  assume "x = CHR '' ''"
  then show "in_cset NAVLINK_TITLE_CLASS x" by (simp add: NAVLINK_TITLE_CLASS_def)
qed

lemma title_bracket [simp]: "in_cset NAVLINK_TITLE_CLASS CHR '']''"
  by (simp add: NAVLINK_TITLE_CLASS_def punctuation_def)

lemma title_at_Cons:
  "title_at (x # xs) = (if in_cset NAVLINK_TITLE_CLASS x then title_from [x] xs else None)"
  by (simp add: title_at_def del: title_from.simps in_cset.simps)

lemma title_from_None_blanks:
  assumes "row_tail X = None" "title_at X = None" "list_all is_space W"
  shows "title_from acc (W @ X) = None"
  using assms(3)
proof (induction W arbitrary: acc)
  case Nil
  show ?case
  proof (cases X)
    case Nil
    then show ?thesis by simp
  next
    case (Cons y z)
    have "in_cset NAVLINK_TITLE_CLASS y \<Longrightarrow> title_from (acc @ [y]) z = None"
      using assms(2) title_from_None_acc [of "[y]" z "acc @ [y]"]
      unfolding Cons title_at_Cons by simp
    then show ?thesis
      using assms(1) unfolding Cons by (simp add: title_from_Cons del: in_cset.simps)
  qed
next
  case (Cons y W)
  then have "title_from (acc @ [y]) (W @ X) = None" by simp
  moreover have "row_tail ((y # W) @ X) = None"
    using row_tail_blanks [of "y # W" X] Cons.prems assms(1) by simp
  ultimately have "title_from (acc @ [y]) (W @ X) = None" "row_tail ((y # W) @ X) = None"
    by simp_all
  then show ?case by (simp add: title_from_Cons del: in_cset.simps)
qed

lemma blanks_title_split:
  assumes "list_all is_space W" "X = [] \<or> \<not> is_space (hd X)"
  shows "blanks_title (W @ X) =
     (case title_at X of Some r \<Rightarrow> Some r
      | None \<Rightarrow> if CHR '' '' \<in> set W
                then map_option (\<lambda>(lk, u). ([[CHR '' ''], lk], u)) (row_tail X) else None)"
  using assms(1)
proof (induction W)
  case Nil
  show ?case
  proof (cases X)
    case Nil
    then show ?thesis by (simp add: title_at_def)
  next
    case (Cons x xs)
    then show ?thesis using assms(2) by (simp split: option.splits)
  qed
next
  case (Cons y W)
  then have y: "is_space y" and W: "list_all is_space W" by simp_all
  note IH = Cons.IH [OF W]
  show ?case
  proof (cases "title_at X")
    case (Some r)
    then show ?thesis using IH y by simp
  next
    case None
    note tX = this
    show ?thesis
    proof (cases "row_tail X")
      case None
      have "title_from [y] (W @ X) = None"
        using None tX W by (rule title_from_None_blanks)
      then show ?thesis using IH y None tX by (simp add: title_at_Cons del: title_from.simps)
    next
      case (Some q)
      obtain lk u where q: "q = (lk, u)" by (cases q)
      show ?thesis
      proof (cases "CHR '' '' \<in> set W")
        case True
        then show ?thesis using IH y Some tX by simp
      next
        case False
        have "row_tail (W @ X) = Some (lk, u)" using Some q W by (simp add: row_tail_blanks)
        then have t: "title_from [y] (W @ X) = Some ([[y], lk], u)"
          by (cases "W @ X") (simp_all add: title_from_Cons)
        show ?thesis
          using IH y Some tX False q t title_space [OF y]
          by (auto simp: title_at_Cons simp del: title_from.simps in_cset.simps)
      qed
    qed
  qed
qed

lemma blanks_title_eq:
  "blanks_title s =
     (case title_at (skip_blanks s) of Some r \<Rightarrow> Some r
      | None \<Rightarrow> if CHR '' '' \<in> set (takeWhile is_space s)
                then map_option (\<lambda>(lk, u). ([[CHR '' ''], lk], u)) (row_tail (skip_blanks s))
                else None)"
proof -
  have "skip_blanks s = [] \<or> \<not> is_space (hd (skip_blanks s))"
    unfolding skip_blanks_def using hd_dropWhile [of is_space s] by blast
  from blanks_title_split [OF blanks_takeWhile this, of s]
  show ?thesis by (simp add: skip_blanks_def)
qed


section \<open>Trailing text\<close>

lemma title_from_extend:
  assumes "title_from acc z = Some (g, u)"
  shows "title_from acc (z @ t) = Some (g, u @ t)"
proof -
  from title_from_shape [OF assms] obtain e z1 lk where
    e: "z = e @ z1" "list_all (in_cset NAVLINK_TITLE_CLASS) e" "g = [acc @ e, lk]"
      "row_tail z1 = Some (lk, u)"
      "\<forall>e1 e2. e = e1 @ e2 \<and> e2 \<noteq> [] \<longrightarrow> row_tail (e2 @ z1) = None"
    by (elim exE conjE)
  from row_tail_shape [OF e(4)] obtain v0 v1 v2 v3 v4 where
    z1: "z1 = v0 @ CHR '']'' # tail_text v1 v2 lk v3 v4 @ u"
    and v: "list_all is_space v0" "list_all is_space v1" "list_all is_space v2"
      "list_all is_space v3" "list_all is_space v4" "list_all (in_cset LINK_CLASS) lk"
    by (elim exE conjE)
  let ?r = "tail_text v1 v2 lk v3 v4 @ u"
  have ta: "tail_after ?r \<noteq> None" using tail_after_text [OF v(2-6), of u] by simp
  have "\<forall>e1 e2. e = e1 @ e2 \<and> e2 \<noteq> [] \<longrightarrow> row_tail (e2 @ (z1 @ t)) = None"
  proof (intro allI impI)
    fix e1 e2 assume h: "e = e1 @ e2 \<and> e2 \<noteq> []"
    then have "row_tail (e2 @ v0 @ CHR '']'' # ?r) = None" using e(5) z1 by blast
    from row_tail_None_variant [OF this v(1) v(1) ta, of "?r @ t"]
    show "row_tail (e2 @ (z1 @ t)) = None" by (simp add: z1)
  qed
  moreover have "row_tail (z1 @ t) = Some (lk, u @ t)" using e(4) by (rule row_tail_extend)
  ultimately have "title_from acc (e @ (z1 @ t)) = Some ([acc @ e, lk], u @ t)"
    using e(2) by (intro title_from_intro)
  then show ?thesis by (simp add: e(1,3))
qed

lemma title_at_extend:
  assumes "title_at s = Some (g, u)"
  shows "title_at (s @ t) = Some (g, u @ t)"
proof (cases s)
  case Nil
  then show ?thesis using assms by (simp add: title_at_def)
next
  case (Cons x xs)
  then show ?thesis
    using assms title_from_extend [of "[x]" xs g u t]
    by (simp add: title_at_Cons del: in_cset.simps split: if_splits)
qed

lemma title_at_first:
  assumes "title_at s = Some (g, u)"
  shows "s \<noteq> [] \<and> g ! 0 \<noteq> [] \<and> hd (g ! 0) = hd s"
proof (cases s)
  case Nil
  then show ?thesis using assms by (simp add: title_at_def)
next
  case (Cons x xs)
  then have "title_from [x] xs = Some (g, u)"
    using assms by (simp add: title_at_Cons del: in_cset.simps split: if_splits)
  from title_from_shape [OF this] obtain e lk where "g = [[x] @ e, lk]" by blast
  then show ?thesis using Cons by simp
qed

lemma blanks_title_extend:
  assumes "blanks_title s = Some (g, u)" "hd (g ! 0) \<noteq> CHR '' ''"
  shows "blanks_title (s @ t) = Some (g, u @ t)"
proof -
  let ?X = "skip_blanks s"
  have "title_at ?X \<noteq> None"
  proof
    assume "title_at ?X = None"
    then have "g ! 0 = [CHR '' '']"
      using assms(1) unfolding blanks_title_eq [of s] by (auto split: if_splits)
    then show False using assms(2) by simp
  qed
  then have X: "title_at ?X = Some (g, u)"
    using assms(1) unfolding blanks_title_eq [of s] by auto
  from title_at_first [OF X] have ne: "?X \<noteq> []" by simp
  then have "\<not> is_space (hd ?X)"
    unfolding skip_blanks_def using hd_dropWhile [of is_space s] by blast
  then have "?X @ t = [] \<or> \<not> is_space (hd (?X @ t))" using ne by simp
  from blanks_title_split [OF blanks_takeWhile this, of s]
  have "blanks_title (takeWhile is_space s @ ?X @ t) = Some (g, u @ t)"
    using title_at_extend [OF X, of t] by simp
  moreover have "takeWhile is_space s @ ?X @ t = s @ t"
    by (simp add: skip_blanks_def flip: append_assoc)
  ultimately show ?thesis by simp
qed

lemma row_first_extend:
  assumes "row_first s = Some (g, u)" "hd (g ! 2) \<noteq> CHR '' ''"
  shows "row_first (s @ t) = Some (g, u @ t)"
proof -
  from assms(1) obtain d p s6 h where
    hd: "row_head s = Some (d, p, s6)" and bt: "blanks_title s6 = Some (h, u)"
    and g: "g = d # p # h"
    unfolding row_first_def by (auto split: option.splits)
  have "hd (h ! 0) \<noteq> CHR '' ''" using assms(2) g by simp
  from blanks_title_extend [OF bt this, of t] row_head_extend [OF hd, of t]
  show ?thesis by (simp add: row_first_def g)
qed

lemma row_first_suffix:
  assumes "row_first s = Some (g, u)"
  shows "\<exists>w. s = w @ u \<and> consumed s u = w"
proof -
  have "(g, u) \<in> set (run ROW_PATTERN s)"
    using assms first_Some_mem unfolding first_run_ROW [symmetric] by fastforce
  then obtain w where "s = w @ u" unfolding run_sem by blast
  then show ?thesis by auto
qed

lemma re_match_ROW_first:
  "re_match ROW_PATTERN s = Some (w # g) \<longleftrightarrow> (\<exists>u. s = w @ u \<and> row_first s = Some (g, u))"
proof
  assume "re_match ROW_PATTERN s = Some (w # g)"
  then obtain u where u: "row_first s = Some (g, u)" "consumed s u = w"
    unfolding re_match_row_first by auto
  from row_first_suffix [OF u(1)] u(2) show "\<exists>u. s = w @ u \<and> row_first s = Some (g, u)"
    using u(1) by auto
next
  assume "\<exists>u. s = w @ u \<and> row_first s = Some (g, u)"
  then show "re_match ROW_PATTERN s = Some (w # g)"
    unfolding re_match_row_first by auto
qed

text \<open>
  Claim C10, amended.  A line that begins with a complete row whose title does not begin
  with a space, followed by any text, is matched by the row pattern with the same groups,
  so it is still classified as a row and \<open>line_to_row\<close> gives the row of the line
  without the trailing text.
\<close>

theorem trailing_text_ignored:
  assumes "re_match ROW_PATTERN r = Some [r, d, p, ti, lk]" and "hd ti \<noteq> CHR '' ''"
  shows "re_match ROW_PATTERN (r @ t) = Some [r, d, p, ti, lk]
     \<and> \<not> filter_line (r @ t) \<and> line_to_row (r @ t) = line_to_row r"
proof -
  from assms(1) obtain u where u: "r = r @ u" "row_first r = Some ([d, p, ti, lk], u)"
    unfolding re_match_ROW_first by blast
  then have "u = []" by simp
  with u(2) have "row_first (r @ t) = Some ([d, p, ti, lk], t)"
    using row_first_extend [of r "[d, p, ti, lk]" "[]" t] assms(2) by simp
  then have m: "re_match ROW_PATTERN (r @ t) = Some [r, d, p, ti, lk]"
    unfolding re_match_ROW_first by blast
  then show ?thesis
    using line_to_row_groups [OF assms(1) m] by (simp add: filter_line_iff)
qed

lemma blank_title_row:
  "re_match ROW_PATTERN ''| 1 | a | [ ]() |'' =
     Some [''| 1 | a | [ ]() |'', ''1'', ''a'', '' '', []]"
  by code_simp

lemma blank_title_row_extended:
  "re_match ROW_PATTERN (''| 1 | a | [ ]() |'' @ ''x](y) |'') =
     Some [''| 1 | a | [ ]() |x](y) |'', ''1'', ''a'', '']() |x'', ''y'']"
  by code_simp

text \<open>
  Claim C10 as stated fails.  The line \<^verbatim>\<open>| 1 | a | [ ]() |\<close> is a complete row with the
  title of one space; with the trailing text \<^verbatim>\<open>x](y) |\<close> the search for the title, which
  starts at the closing bracket, now succeeds and gives another title and link.
\<close>

theorem trailing_text_changes_row:
  "re_match ROW_PATTERN ''| 1 | a | [ ]() |''
     = Some [''| 1 | a | [ ]() |'', ''1'', ''a'', '' '', []]
   \<and> line_to_row (''| 1 | a | [ ]() |'' @ ''x](y) |'') \<noteq> line_to_row ''| 1 | a | [ ]() |''"
proof -
  have "line_to_row (''| 1 | a | [ ]() |'' @ ''x](y) |'')
      = Inr (row_of [''| 1 | a | [ ]() |x](y) |'', ''1'', ''a'', '']() |x'', ''y''])"
    using blank_title_row_extended by (rule line_to_row_row_of) (simp add: max_str_digits_def)
  moreover have "line_to_row ''| 1 | a | [ ]() |''
      = Inr (row_of [''| 1 | a | [ ]() |'', ''1'', ''a'', '' '', []])"
    using blank_title_row by (rule line_to_row_row_of) (simp add: max_str_digits_def)
  moreover have "row_of [''| 1 | a | [ ]() |x](y) |'', ''1'', ''a'', '']() |x'', ''y'']
      \<noteq> row_of [''| 1 | a | [ ]() |'', ''1'', ''a'', '' '', []]"
    by (simp add: row_of_def)
  ultimately show ?thesis using blank_title_row by simp
qed

theorem trailing_text_ignored_witness:
  "re_match ROW_PATTERN ''| 1 | a | [Title]() |''
     = Some [''| 1 | a | [Title]() |'', ''1'', ''a'', ''Title'', []]
   \<and> hd ''Title'' \<noteq> CHR '' ''
   \<and> re_match ROW_PATTERN (''| 1 | a | [Title]() |'' @ '' trailing ] text |'')
     = Some [''| 1 | a | [Title]() |'', ''1'', ''a'', ''Title'', []]
   \<and> \<not> filter_line (''| 1 | a | [Title]() |'' @ '' trailing ] text |'')
   \<and> line_to_row (''| 1 | a | [Title]() |'' @ '' trailing ] text |'')
     = line_to_row ''| 1 | a | [Title]() |''"
proof -
  have h: "hd ''Title'' \<noteq> CHR '' ''" by simp
  show ?thesis
    using trailing_text_ignored [OF title_row_1 h, of "'' trailing ] text |''"] title_row_1 h
    by blast
qed


section \<open>Blanks around the cells\<close>

lemma spaced_set: "spaced u v \<Longrightarrow> set u \<subseteq> set v \<and> set v \<subseteq> insert CHR '' '' (set u)"
  by (induction u v rule: spaced.induct) (auto simp: list_all_iff)

lemma spaced_blanks: "spaced u v \<Longrightarrow> list_all is_space u \<Longrightarrow> list_all is_space v"
  using spaced_set [of u v] unfolding list_all_iff by auto

lemma spaced_refl: "spaced u u"
  by (induction u) auto

lemma tail_text_suffix_fails:
  assumes "tail_text v1 v2 lk v3 v4 = a1 @ a2" "a2 \<noteq> []"
    and "list_all is_space v1" "list_all is_space v2" "list_all is_space v3"
    "list_all is_space v4" "list_all (in_cset LINK_CLASS) lk"
  shows "row_tail (a2 @ r) = None"
proof -
  note c = tail_text_chars [OF assms(3-7)]
  have "last a2 = CHR ''|''" using c(3) assms(1,2) by simp
  then have "\<not> list_all is_space a2"
    using assms(2) last_in_set [of a2] unfolding list_all_iff by force
  then obtain ws x a' where a: "a2 = ws @ x # a'" "list_all is_space ws" "\<not> is_space x"
    by (rule first_other)
  have "x \<in> set (tail_text v1 v2 lk v3 v4)" unfolding assms(1) a(1) by simp
  then have "x \<noteq> CHR '']''" using c(1) by blast
  moreover have "skip_blanks (a2 @ r) = x # a' @ r"
    unfolding a(1) using a(2,3) by (simp add: skip_blanks_char)
  ultimately show ?thesis by (simp add: row_tail_def)
qed

lemma title_from_tail_text:
  assumes "list_all is_space v1" "list_all is_space v2" "list_all is_space v3"
    "list_all is_space v4" "list_all (in_cset LINK_CLASS) lk"
  shows "title_from acc (tail_text v1 v2 lk v3 v4 @ r) =
     (if list_all (in_cset NAVLINK_TITLE_CLASS) (tail_text v1 v2 lk v3 v4)
      then title_from (acc @ tail_text v1 v2 lk v3 v4) r else None)"
  using tail_text_suffix_fails [OF _ _ assms] by (intro title_from_skip) blast

lemma tail_text_title_chars:
  assumes "list_all (in_cset NAVLINK_TITLE_CLASS) (tail_text v1' v2' lk v3' v4')"
    and "set v1 \<subseteq> set v1'" "set v2 \<subseteq> set v2'" "set v3 \<subseteq> set v3'" "set v4 \<subseteq> set v4'"
  shows "list_all (in_cset NAVLINK_TITLE_CLASS) (tail_text v1 v2 lk v3 v4)"
proof -
  have "set (tail_text v1 v2 lk v3 v4) \<subseteq> set (tail_text v1' v2' lk v3' v4')"
    using assms(2-5) unfolding tail_text_def by auto
  then show ?thesis using assms(1) unfolding list_all_iff by blast
qed

lemma blanks_title_variant:
  assumes w: "list_all is_space w6" "list_all is_space w7" "list_all is_space v1"
      "list_all is_space v2" "list_all is_space v3" "list_all is_space v4"
    and w': "list_all is_space w6'" "list_all is_space w7'" "list_all is_space v1'"
      "list_all is_space v2'" "list_all is_space v3'" "list_all is_space v4'"
    and sub: "set v1 \<subseteq> set v1'" "set v2 \<subseteq> set v2'" "set v3 \<subseteq> set v3'" "set v4 \<subseteq> set v4'"
    and ti: "ti \<noteq> []" "list_all (in_cset NAVLINK_TITLE_CLASS) ti"
    and lk: "list_all (in_cset LINK_CLASS) lk"
    and m: "blanks_title (w6 @ ti @ w7 @ CHR '']'' # tail_text v1 v2 lk v3 v4 @ rest)
       = Some ([ti, lk], rest)"
  shows "blanks_title (w6' @ ti @ w7' @ CHR '']'' # tail_text v1' v2' lk v3' v4' @ rest)
       = Some ([ti, lk], rest)"
proof -
  let ?T = "tail_text v1 v2 lk v3 v4" and ?T' = "tail_text v1' v2' lk v3' v4'"
  let ?z = "w7 @ CHR '']'' # ?T @ rest" and ?z' = "w7' @ CHR '']'' # ?T' @ rest"
  obtain x e where xe: "ti = x # e" using ti(1) by (cases ti) auto
  have Tx: "in_cset NAVLINK_TITLE_CLASS x" and Te: "list_all (in_cset NAVLINK_TITLE_CLASS) e"
    using ti(2) xe by simp_all
  have rt': "row_tail ?z' = Some (lk, rest)"
    using row_tail_text [OF w'(2-6) lk] .
  have ta: "tail_after (?T @ rest) \<noteq> None"
    using tail_after_text [OF w(3-6) lk, of rest] by simp
  show ?thesis
  proof (cases "x = CHR '' ''")
    case False
    then have nsx: "\<not> is_space x" using title_space [of x] Tx by blast
    let ?X = "ti @ ?z" and ?X' = "ti @ ?z'"
    have hX: "?X = [] \<or> \<not> is_space (hd ?X)" "?X' = [] \<or> \<not> is_space (hd ?X')"
      using nsx xe by simp_all
    have "title_at ?X \<noteq> None"
    proof
      assume "title_at ?X = None"
      then have "ti = [CHR '' '']"
        using m unfolding blanks_title_split [OF w(1) hX(1)] by (auto split: if_splits)
      then show False using xe False by simp
    qed
    then have "title_at ?X = Some ([ti, lk], rest)"
      using m unfolding blanks_title_split [OF w(1) hX(1)] by auto
    then have "title_from [x] (e @ ?z) = Some ([ti, lk], rest)"
      unfolding xe using Tx by (simp add: title_at_Cons del: in_cset.simps)
    from title_from_shape [OF this] obtain e0 z0 lk0 where
      s: "e @ ?z = e0 @ z0" "[ti, lk] = [[x] @ e0, lk0]"
        "\<forall>e1 e2. e0 = e1 @ e2 \<and> e2 \<noteq> [] \<longrightarrow> row_tail (e2 @ z0) = None"
      by (elim exE conjE)
    from s(2) have "e0 = e" using xe by simp
    with s(1) have "z0 = ?z" by simp
    have "\<forall>e1 e2. e = e1 @ e2 \<and> e2 \<noteq> [] \<longrightarrow> row_tail (e2 @ ?z') = None"
    proof (intro allI impI)
      fix e1 e2 assume "e = e1 @ e2 \<and> e2 \<noteq> []"
      then have "row_tail (e2 @ w7 @ CHR '']'' # (?T @ rest)) = None"
        using s(3) \<open>e0 = e\<close> \<open>z0 = ?z\<close> by blast
      from row_tail_None_variant [OF this w(2) w'(2) ta]
      show "row_tail (e2 @ ?z') = None" .
    qed
    with Te rt' have "title_from [x] (e @ ?z') = Some ([[x] @ e, lk], rest)"
      by (intro title_from_intro)
    then have "title_at ?X' = Some ([ti, lk], rest)"
      unfolding xe using Tx by (simp add: title_at_Cons del: in_cset.simps)
    then show ?thesis unfolding blanks_title_split [OF w'(1) hX(2)] by simp
  next
    case True
    let ?S = "w6 @ ti @ ?z"
    have "title_at (skip_blanks ?S) = None"
    proof (rule ccontr)
      assume "title_at (skip_blanks ?S) \<noteq> None"
      then have t: "title_at (skip_blanks ?S) = Some ([ti, lk], rest)"
        using m unfolding blanks_title_eq [of ?S] by auto
      from title_at_first [OF t] have "skip_blanks ?S \<noteq> []" "hd (skip_blanks ?S) = CHR '' ''"
        using xe True by simp_all
      then show False
        unfolding skip_blanks_def using hd_dropWhile [of is_space ?S] by simp
    qed
    then have "ti = [CHR '' '']"
      using m unfolding blanks_title_eq [of ?S] by (auto split: if_splits)
    let ?W = "w6 @ [CHR '' ''] @ w7" and ?W' = "w6' @ [CHR '' ''] @ w7'"
    let ?X = "CHR '']'' # ?T @ rest" and ?X' = "CHR '']'' # ?T' @ rest"
    have W: "list_all is_space ?W" "list_all is_space ?W'" using w(1,2) w'(1,2) by simp_all
    have hX: "?X = [] \<or> \<not> is_space (hd ?X)" "?X' = [] \<or> \<not> is_space (hd ?X')" by simp_all
    have S: "w6 @ ti @ ?z = ?W @ ?X" "w6' @ ti @ ?z' = ?W' @ ?X'"
      using \<open>ti = [CHR '' '']\<close> by simp_all
    have "title_at ?X = None"
    proof (rule ccontr)
      assume "title_at ?X \<noteq> None"
      then have t: "title_at ?X = Some ([ti, lk], rest)"
        using m unfolding S blanks_title_split [OF W(1) hX(1)] by auto
      from title_at_first [OF t] show False using xe True by simp
    qed
    then have "title_from [CHR '']''] (?T @ rest) = None"
      by (simp add: title_at_Cons del: in_cset.simps)
    then have n: "\<not> list_all (in_cset NAVLINK_TITLE_CLASS) ?T
        \<or> title_from ([CHR '']''] @ ?T) rest = None"
      unfolding title_from_tail_text [OF w(3-6) lk] by (auto split: if_splits)
    have "title_from [CHR '']''] (?T' @ rest) = None"
    proof (cases "list_all (in_cset NAVLINK_TITLE_CLASS) ?T'")
      case False
      then show ?thesis unfolding title_from_tail_text [OF w'(3-6) lk] by simp
    next
      case True
      then have "list_all (in_cset NAVLINK_TITLE_CLASS) ?T" using sub by (rule tail_text_title_chars)
      with n have "title_from ([CHR '']''] @ ?T) rest = None" by blast
      then have "title_from ([CHR '']''] @ ?T') rest = None" by (rule title_from_None_acc)
      then show ?thesis unfolding title_from_tail_text [OF w'(3-6) lk] by simp
    qed
    then have "title_at ?X' = None" by (simp add: title_at_Cons del: in_cset.simps)
    moreover have "row_tail ?X' = Some (lk, rest)"
      using tail_after_text [OF w'(3-6) lk, of rest] by (simp add: row_tail_bracket)
    ultimately show ?thesis
      unfolding S blanks_title_split [OF W(2) hX(2)] using \<open>ti = [CHR '' '']\<close> by simp
  qed
qed



lemma row_first_text:
  assumes "length ws = 12" "list_all (list_all is_space) ws"
    and "d \<noteq> []" "list_all is_digit d" "p \<noteq> []" "list_all (in_cset PATH_CLASS) p"
  shows "row_first (row_text ws d p ti lk @ rest) =
     map_option (\<lambda>(h, u). (d # p # h, u))
       (blanks_title (ws ! 6 @ ti @ ws ! 7 @ CHR '']''
          # tail_text (ws ! 8) (ws ! 9) lk (ws ! 10) (ws ! 11) @ rest))"
proof -
  have b: "\<And>i. i < 12 \<Longrightarrow> list_all is_space (ws ! i)"
    using assms(1,2) by (simp add: list_all_length)
  have "row_head (head_text (ws ! 0) (ws ! 1) d (ws ! 2) (ws ! 3) p (ws ! 4) (ws ! 5)
      @ (ws ! 6 @ ti @ ws ! 7 @ CHR '']''
          # tail_text (ws ! 8) (ws ! 9) lk (ws ! 10) (ws ! 11) @ rest))
    = Some (d, p, ws ! 6 @ ti @ ws ! 7 @ CHR '']''
          # tail_text (ws ! 8) (ws ! 9) lk (ws ! 10) (ws ! 11) @ rest)"
    by (intro row_head_text b assms(3-6)) simp_all
  then show ?thesis by (simp add: row_first_def row_text_def)
qed

text \<open>
  Claim C8.  Whitespace insensitivity: take a line matched by the row pattern, written as
  its cells and the blanks \<open>ws\<close> around the pipes and the cell contents (every matched
  line is of this form, see \<open>row_line_shape\<close> below), and insert space characters into
  any of the blanks.  The row pattern matches the new line with the same groups, and
  \<open>line_to_row\<close> gives the same row.
\<close>

theorem whitespace_insensitive:
  assumes "length ws = 12" and "list_all (list_all is_space) ws" and "list_all2 spaced ws ws'"
    and "re_match ROW_PATTERN (row_text ws d p ti lk @ rest)
           = Some [row_text ws d p ti lk, d, p, ti, lk]"
  shows "re_match ROW_PATTERN (row_text ws' d p ti lk @ rest)
           = Some [row_text ws' d p ti lk, d, p, ti, lk]
     \<and> line_to_row (row_text ws' d p ti lk @ rest) = line_to_row (row_text ws d p ti lk @ rest)"
proof -
  have len': "length ws' = 12" using list_all2_lengthD [OF assms(3)] assms(1) by simp
  have b: "\<And>i. i < 12 \<Longrightarrow> list_all is_space (ws ! i)"
    using assms(1,2) by (simp add: list_all_length)
  have sp: "\<And>i. i < 12 \<Longrightarrow> spaced (ws ! i) (ws' ! i)"
    using list_all2_nthD [OF assms(3)] assms(1) by simp
  have b': "\<And>i. i < 12 \<Longrightarrow> list_all is_space (ws' ! i)"
    using spaced_blanks [OF sp b] .
  then have all': "list_all (list_all is_space) ws'" using len' by (simp add: list_all_length)
  have sub: "\<And>i. i < 12 \<Longrightarrow> set (ws ! i) \<subseteq> set (ws' ! i)"
    using spaced_set [OF sp] by blast
  from re_match_ROW_groups [OF assms(4)] have
    g: "d \<noteq> []" "list_all is_digit d" "p \<noteq> []" "list_all (in_cset PATH_CLASS) p"
      "ti \<noteq> []" "list_all (in_cset NAVLINK_TITLE_CLASS) ti" "list_all (in_cset LINK_CLASS) lk"
    by simp_all
  from assms(4) obtain u where
    u: "row_text ws d p ti lk @ rest = row_text ws d p ti lk @ u"
      "row_first (row_text ws d p ti lk @ rest) = Some ([d, p, ti, lk], u)"
    unfolding re_match_ROW_first by blast
  then have "u = rest" by simp
  with u(2) have "blanks_title (ws ! 6 @ ti @ ws ! 7 @ CHR '']''
      # tail_text (ws ! 8) (ws ! 9) lk (ws ! 10) (ws ! 11) @ rest) = Some ([ti, lk], rest)"
    unfolding row_first_text [OF assms(1,2) g(1-4)] by auto
  moreover have "list_all is_space (ws ! 6)" "list_all is_space (ws ! 7)"
    "list_all is_space (ws ! 8)" "list_all is_space (ws ! 9)"
    "list_all is_space (ws ! 10)" "list_all is_space (ws ! 11)"
    by (rule b, simp)+
  moreover have "list_all is_space (ws' ! 6)" "list_all is_space (ws' ! 7)"
    "list_all is_space (ws' ! 8)" "list_all is_space (ws' ! 9)"
    "list_all is_space (ws' ! 10)" "list_all is_space (ws' ! 11)"
    by (rule b', simp)+
  moreover have "set (ws ! 8) \<subseteq> set (ws' ! 8)" "set (ws ! 9) \<subseteq> set (ws' ! 9)"
    "set (ws ! 10) \<subseteq> set (ws' ! 10)" "set (ws ! 11) \<subseteq> set (ws' ! 11)"
    by (rule sub, simp)+
  ultimately have "blanks_title (ws' ! 6 @ ti @ ws' ! 7 @ CHR '']''
      # tail_text (ws' ! 8) (ws' ! 9) lk (ws' ! 10) (ws' ! 11) @ rest) = Some ([ti, lk], rest)"
    using g(5,6,7) by (rule blanks_title_variant [rotated 19])
  then have "row_first (row_text ws' d p ti lk @ rest) = Some ([d, p, ti, lk], rest)"
    unfolding row_first_text [OF len' all' g(1-4)] by simp
  then have m: "re_match ROW_PATTERN (row_text ws' d p ti lk @ rest)
      = Some [row_text ws' d p ti lk, d, p, ti, lk]"
    unfolding re_match_ROW_first by blast
  show ?thesis using m line_to_row_groups [OF assms(4) m] by simp
qed



text \<open>Every line that the row pattern matches is such a text, with its groups as the cells.\<close>

lemma blanks_title_shape:
  assumes "blanks_title s = Some (h, u)"
  shows "\<exists>w6 ti w7 v1 v2 lk v3 v4. h = [ti, lk]
     \<and> s = w6 @ ti @ w7 @ CHR '']'' # tail_text v1 v2 lk v3 v4 @ u
     \<and> list_all (list_all is_space) [w6, w7, v1, v2, v3, v4]"
proof (cases "title_at (skip_blanks s)")
  case None
  with assms obtain lk where
    a: "CHR '' '' \<in> set (takeWhile is_space s)" "row_tail (skip_blanks s) = Some (lk, u)"
      "h = [[CHR '' ''], lk]"
    unfolding blanks_title_eq [of s] by (auto split: if_splits)
  from row_tail_shape [OF a(2)] obtain v0 v1 v2 v3 v4 where
    v: "skip_blanks s = v0 @ CHR '']'' # tail_text v1 v2 lk v3 v4 @ u"
      "list_all is_space v0" "list_all is_space v1" "list_all is_space v2"
      "list_all is_space v3" "list_all is_space v4"
    by (elim exE conjE)
  from a(1) obtain W1 W2 where W: "takeWhile is_space s = W1 @ CHR '' '' # W2"
    by (meson split_list)
  have "list_all is_space (W1 @ CHR '' '' # W2)" using blanks_takeWhile [of s] W by simp
  then have Wb: "list_all is_space W1" "list_all is_space (W2 @ v0)" using v(2) by simp_all
  have "s = takeWhile is_space s @ skip_blanks s" by (simp add: skip_blanks_def)
  then have "s = W1 @ [CHR '' ''] @ (W2 @ v0) @ CHR '']'' # tail_text v1 v2 lk v3 v4 @ u"
    unfolding W v(1) by simp
  then have "h = [[CHR '' ''], lk]
     \<and> s = W1 @ [CHR '' ''] @ (W2 @ v0) @ CHR '']'' # tail_text v1 v2 lk v3 v4 @ u
     \<and> list_all (list_all is_space) [W1, W2 @ v0, v1, v2, v3, v4]"
    using a(3) Wb v(3-6) by simp
  then show ?thesis by (intro exI)
next
  case (Some r)
  with assms have t: "title_at (skip_blanks s) = Some (h, u)"
    unfolding blanks_title_eq [of s] by simp
  then obtain x xs where x: "skip_blanks s = x # xs" "title_from [x] xs = Some (h, u)"
    by (cases "skip_blanks s") (auto simp: title_at_def split: if_splits)
  from title_from_shape [OF x(2)] obtain e z1 lk where
    e: "xs = e @ z1" "h = [[x] @ e, lk]" "row_tail z1 = Some (lk, u)"
    by (elim exE conjE)
  from row_tail_shape [OF e(3)] obtain v0 v1 v2 v3 v4 where
    v: "z1 = v0 @ CHR '']'' # tail_text v1 v2 lk v3 v4 @ u"
      "list_all is_space v0" "list_all is_space v1" "list_all is_space v2"
      "list_all is_space v3" "list_all is_space v4"
    by (elim exE conjE)
  have "s = takeWhile is_space s @ skip_blanks s" by (simp add: skip_blanks_def)
  then have "s = takeWhile is_space s @ (x # e) @ v0 @ CHR '']'' # tail_text v1 v2 lk v3 v4 @ u"
    unfolding x(1) e(1) v(1) by simp
  then have "h = [x # e, lk]
     \<and> s = takeWhile is_space s @ (x # e) @ v0 @ CHR '']'' # tail_text v1 v2 lk v3 v4 @ u
     \<and> list_all (list_all is_space) [takeWhile is_space s, v0, v1, v2, v3, v4]"
    using e(2) blanks_takeWhile v(2-6) by simp
  then show ?thesis by (intro exI)
qed

lemma row_line_shape:
  assumes "re_match ROW_PATTERN l = Some m"
  shows "\<exists>ws rest. length ws = 12 \<and> list_all (list_all is_space) ws
     \<and> l = row_text ws (m ! 1) (m ! 2) (m ! 3) (m ! 4) @ rest
     \<and> m = [row_text ws (m ! 1) (m ! 2) (m ! 3) (m ! 4), m ! 1, m ! 2, m ! 3, m ! 4]"
proof -
  from re_match_ROW_groups [OF assms] obtain w d p ti lk where m: "m = [w, d, p, ti, lk]"
    by blast
  from assms obtain u where u: "l = w @ u" "row_first l = Some ([d, p, ti, lk], u)"
    unfolding m re_match_ROW_first by blast
  from u(2) obtain s6 where
    hd: "row_head l = Some (d, p, s6)" and bt: "blanks_title s6 = Some ([ti, lk], u)"
    unfolding row_first_def by (auto split: option.splits)
  from row_head_shape [OF hd] obtain w0 w1 w2 w3 w4 w5 where
    l: "l = head_text w0 w1 d w2 w3 p w4 w5 @ s6"
    and wb: "list_all is_space w0" "list_all is_space w1" "list_all is_space w2"
      "list_all is_space w3" "list_all is_space w4" "list_all is_space w5"
    by (elim exE conjE)
  from blanks_title_shape [OF bt] obtain w6 w7 v1 v2 v3 v4 where
    s6: "s6 = w6 @ ti @ w7 @ CHR '']'' # tail_text v1 v2 lk v3 v4 @ u"
    and vb: "list_all (list_all is_space) [w6, w7, v1, v2, v3, v4]"
    by auto
  let ?ws = "[w0, w1, w2, w3, w4, w5, w6, w7, v1, v2, v3, v4]"
  have "l = row_text ?ws d p ti lk @ u" unfolding l s6 by (simp add: row_text_def)
  moreover from this u(1) have "w = row_text ?ws d p ti lk" by simp
  moreover have "length ?ws = 12" "list_all (list_all is_space) ?ws" using wb vb by simp_all
  ultimately have "length ?ws = 12 \<and> list_all (list_all is_space) ?ws
     \<and> l = row_text ?ws (m ! 1) (m ! 2) (m ! 3) (m ! 4) @ u
     \<and> m = [row_text ?ws (m ! 1) (m ! 2) (m ! 3) (m ! 4), m ! 1, m ! 2, m ! 3, m ! 4]"
    unfolding m by simp
  then show ?thesis by (intro exI)
qed



lemma spaced_row:
  "row_text ['''', '' '', '' '', '' '', '' '', '' '', '''', '''', '''', '''', '''', '' '']
      ''1'' ''a'' ''Title'' ''some/path'' = ''| 1 | a | [Title](some/path) |''"
  "row_text [''  '', '' '', ''  '', '' '', '' '', ''  '', '' '', '' '', '' '', '' '', '' '', ''  '']
      ''1'' ''a'' ''Title'' ''some/path'' = ''  | 1  | a |  [ Title ] ( some/path )  |''"
  by (simp_all add: row_text_def head_text_def tail_text_def)

theorem whitespace_insensitive_witness:
  "re_match ROW_PATTERN ''| 1 | a | [Title](some/path) |''
     = Some [''| 1 | a | [Title](some/path) |'', ''1'', ''a'', ''Title'', ''some/path'']
   \<and> re_match ROW_PATTERN ''  | 1  | a |  [ Title ] ( some/path )  |''
     = Some [''  | 1  | a |  [ Title ] ( some/path )  |'', ''1'', ''a'', ''Title'', ''some/path'']
   \<and> line_to_row ''  | 1  | a |  [ Title ] ( some/path )  |''
     = line_to_row ''| 1 | a | [Title](some/path) |''"
proof -
  let ?ws = "['''', '' '', '' '', '' '', '' '', '' '', '''', '''', '''', '''', '''', '' '']"
  let ?ws' = "[''  '', '' '', ''  '', '' '', '' '', ''  '', '' '', '' '', '' '', '' '', '' '', ''  '']"
  have 1: "length ?ws = 12" by simp
  have 2: "list_all (list_all is_space) ?ws" by simp
  have 3: "list_all2 spaced ?ws ?ws'" by simp
  have 4: "re_match ROW_PATTERN (row_text ?ws ''1'' ''a'' ''Title'' ''some/path'' @ [])
      = Some [row_text ?ws ''1'' ''a'' ''Title'' ''some/path'', ''1'', ''a'', ''Title'',
              ''some/path'']"
    unfolding spaced_row using title_row_2 by simp
  from whitespace_insensitive [OF 1 2 3 4] show ?thesis
    unfolding spaced_row using title_row_2 by simp
qed

section \<open>Levels beyond the digit limit\<close>

lemma long_level_props:
  "long_level \<noteq> []" "list_all is_digit long_level" "length long_level = 4301"
  "list_all (\<lambda>c. \<not> is_linebreak c) long_level"
  by (simp_all add: long_level_def list_all_iff is_digit_def is_linebreak_def code_def)

lemma long_level_row_text:
  "long_level_row =
     row_text ['''', '' '', '' '', '' '', '' '', '' '', '''', '''', '''', '''', '''', '' '']
       long_level ''a'' ''T'' []"
  by (simp add: long_level_row_def row_text_def head_text_def tail_text_def)

lemma title_T: "blanks_title ''T]() |'' = Some ([''T'', []], [])"
  by code_simp

lemma long_level_row_match:
  "re_match ROW_PATTERN long_level_row = Some [long_level_row, long_level, ''a'', ''T'', []]"
proof -
  let ?ws = "['''', '' '', '' '', '' '', '' '', '' '', '''', '''', '''', '''', '''', '' '']"
  have ws: "length ?ws = 12" "list_all (list_all is_space) ?ws"
    by (simp_all add: is_space_def code_def)
  have p: "''a'' \<noteq> []" "list_all (in_cset PATH_CLASS) ''a''"
    by (simp_all add: is_word_def is_alnum_def is_digit_def code_def)
  have t: "?ws ! 6 @ ''T'' @ ?ws ! 7 @ CHR '']''
      # tail_text (?ws ! 8) (?ws ! 9) [] (?ws ! 10) (?ws ! 11) @ [] = ''T]() |''"
    by (simp add: tail_text_def)
  have "row_first (row_text ?ws long_level ''a'' ''T'' [] @ [])
      = Some ([long_level, ''a'', ''T'', []], [])"
    unfolding row_first_text [OF ws long_level_props(1,2) p] t title_T by simp
  then have "row_first long_level_row = Some ([long_level, ''a'', ''T'', []], [])"
    unfolding long_level_row_text by simp
  then have "\<exists>u. long_level_row = long_level_row @ u
      \<and> row_first long_level_row = Some ([long_level, ''a'', ''T'', []], u)"
    by simp
  then show ?thesis unfolding re_match_ROW_first .
qed

lemma long_level_row_error: "line_to_row long_level_row = Inl ValueError"
  using line_to_row_long [OF long_level_row_match]
  by (simp add: long_level_props max_str_digits_def)

lemma long_level_row_line: "list_all (\<lambda>c. \<not> is_linebreak c) long_level_row"
  using long_level_props(4) by (simp add: long_level_row_def is_linebreak_def code_def)

lemma repr_tab: "py_repr [CHR 0x09] = [CHR 0x27, CHR 0x5C, CHR ''t'', CHR 0x27]"
  by code_simp

lemma no_row_tab: "re_match ROW_PATTERN [CHR 0x09] = None"
  by code_simp

text \<open>
  Claim C4 as stated fails in two places.  The line that consists of a tab is not a row,
  and the message of the exception holds the two characters \<^verbatim>\<open>\t\<close> between quotes, not
  the tab: it carries the \<^verbatim>\<open>repr\<close> of the line, not its literal text.  And the line
  \<^verbatim>\<open>| 1...1 | a | [T]() |\<close> with a level of 4301 digits matches the row pattern, yet
  no row is returned: \<^verbatim>\<open>int\<close> raises \<^verbatim>\<open>ValueError\<close>.
\<close>

theorem line_to_row_repr_and_limit:
  "line_to_row [CHR 0x09]
     = Inl (NavigationTableParseError
         (''Invalid table row, line='' @ [CHR 0x27, CHR 0x5C, CHR ''t'', CHR 0x27]))
   \<and> CHR 0x09 \<notin> set (''Invalid table row, line='' @ [CHR 0x27, CHR 0x5C, CHR ''t'', CHR 0x27])
   \<and> re_match ROW_PATTERN long_level_row = Some [long_level_row, long_level, ''a'', ''T'', []]
   \<and> line_to_row long_level_row = Inl ValueError"
  using long_level_row_match long_level_row_error
  by (simp add: line_to_row_None [OF no_row_tab] repr_tab)

lemma filler_line_match: "re_match FILLER_ROW_PATTERN ''| -- | -- | -- |'' \<noteq> None"
  by code_simp

text \<open>
  Claim C5 as stated fails: the page of a header line, a filler line and the row line with
  a level of 4301 digits, which the row pattern matches, yields no row; running the
  generator raises the \<^verbatim>\<open>ValueError\<close> of \<^verbatim>\<open>int\<close>.
\<close>

theorem round_trip_long_level:
  "re_match TABLE_HEADER_PATTERN ''| Level | Path | Navlink |'' \<noteq> None
   \<and> re_match FILLER_ROW_PATTERN ''| -- | -- | -- |'' \<noteq> None
   \<and> re_match ROW_PATTERN long_level_row = Some [long_level_row, long_level, ''a'', ''T'', []]
   \<and> from_page (join_lines [''| Level | Path | Navlink |'', ''| -- | -- | -- |'', long_level_row])
       = [Inl ValueError]
   \<and> consume (from_page
        (join_lines [''| Level | Path | Navlink |'', ''| -- | -- | -- |'', long_level_row]))
       = Inl ValueError"
proof -
  have r: "list_all (\<lambda>r. re_match ROW_PATTERN r \<noteq> None) [long_level_row]"
    by (simp add: long_level_row_match)
  have l: "list_all (\<lambda>l. list_all (\<lambda>c. \<not> is_linebreak c) l)
      [''| Level | Path | Navlink |'', ''| -- | -- | -- |'', long_level_row]"
    using long_level_row_line by (simp add: is_linebreak_def code_def)
  have "from_page (join_lines [''| Level | Path | Navlink |'', ''| -- | -- | -- |'', long_level_row])
      = map line_to_row [long_level_row]"
    using header_line_match filler_line_match r l by (rule from_page_table)
  then show ?thesis
    using header_line_match filler_line_match long_level_row_match
    by (simp add: long_level_row_error)
qed



end
